theory Spec2Isabelle
  imports Complex_Main "HOL-Library.Word" "HOL-Library.Log_Nat"
begin

section \<open>The glyph renderer: \<open>display_frame\<close>\<close>

text \<open>
  \<open>display_frame\<close> reads plane 0 of an \<open>AVFrame\<close> of 8-bit samples and writes one
  character per sample to standard output.  The fields of \<open>AVFrame\<close> that the function
  reads are kept under their C names.  \<open>data\<close> is the memory reachable from
  \<open>frame->data[0]\<close>, addressed by the byte offset from that pointer: an offset outside
  the allocated plane has no value, and reading it makes the whole call undefined
  (\<open>None\<close>).  Offsets are integers because \<open>linesize[0]\<close> is a signed \<open>int\<close>.
\<close>

type_synonym uint8_t = "8 word"

record AVFrame =
  width :: int
  height :: int
  linesize :: int
  data :: "int \<Rightarrow> uint8_t option"

text \<open>What the program does to \<open>stdout\<close>: it writes characters and it flushes.\<close>

datatype stdio_op = Putchar char | Fflush

type_synonym stdout = "stdio_op list"

definition printf :: "string \<Rightarrow> stdout \<Rightarrow> stdout" where
  "printf s out = out @ map Putchar s"

definition putchar :: "char \<Rightarrow> stdout \<Rightarrow> stdout" where
  "putchar c out = out @ [Putchar c]"

definition fflush :: "stdout \<Rightarrow> stdout" where
  "fflush out = out @ [Fflush]"

text \<open>The string literal \<open>" .-+#"\<close> of line 241, and the escape sequence of line 237.\<close>

definition ramp :: string where
  "ramp = '' .-+#''"

definition cursor_home :: string where
  "cursor_home = [CHR 0x1B, CHR ''['', CHR ''H'']"

definition newline :: char where
  "newline = CHR 0x0A"

text \<open>
  \<open>" .-+#"[*(p++) / 52]\<close>: the sample is promoted to \<open>int\<close>, divided by 52 and used as
  an index into the literal.
\<close>

definition glyph_index :: "uint8_t \<Rightarrow> nat" where
  "glyph_index b = unat b div 52"

definition glyph :: "uint8_t \<Rightarrow> char" where
  "glyph b = ramp ! glyph_index b"

text \<open>
  The inner loop \<open>for (x = 0; x < frame->width; x++) putchar(...[*(p++) / 52])\<close>,
  started at column \<open>x\<close> with the read pointer at offset \<open>p\<close>.
\<close>

function row_loop :: "AVFrame \<Rightarrow> int \<Rightarrow> int \<Rightarrow> stdout \<Rightarrow> stdout option" where
  "row_loop frame x p out =
     (if x < width frame then
        (case data frame p of
           None \<Rightarrow> None
         | Some b \<Rightarrow> row_loop frame (x + 1) (p + 1) (putchar (glyph b) out))
      else Some out)"
  by pat_completeness auto
termination
  by (relation "measure (\<lambda>(frame, x, p, out). nat (width frame - x))") auto

text \<open>
  The outer loop \<open>for (y = 0; y < frame->height; y++)\<close>, started at row \<open>y\<close> with
  \<open>p0\<close> the offset of the start of that row.
\<close>

function frame_loop :: "AVFrame \<Rightarrow> int \<Rightarrow> int \<Rightarrow> stdout \<Rightarrow> stdout option" where
  "frame_loop frame y p0 out =
     (if y < height frame then
        (case row_loop frame 0 p0 out of
           None \<Rightarrow> None
         | Some out' \<Rightarrow>
             frame_loop frame (y + 1) (p0 + linesize frame) (putchar newline out'))
      else Some out)"
  by pat_completeness auto
termination
  by (relation "measure (\<lambda>(frame, y, p0, out). nat (height frame - y))") auto

definition display_frame :: "AVFrame \<Rightarrow> stdout \<Rightarrow> stdout option" where
  "display_frame frame out =
     (case frame_loop frame 0 0 (printf cursor_home out) of
        None \<Rightarrow> None
      | Some out' \<Rightarrow> Some (fflush out'))"

declare row_loop.simps [simp del]
declare frame_loop.simps [simp del]

text \<open>The sample of row \<open>y\<close>, column \<open>x\<close>: the byte at \<open>data[0] + y * linesize[0] + x\<close>.\<close>

definition sample_at :: "AVFrame \<Rightarrow> int \<Rightarrow> int \<Rightarrow> uint8_t option" where
  "sample_at frame y x = data frame (y * linesize frame + x)"


text \<open>The text of one row and of the whole grid, as lists of characters.\<close>

definition row_text :: "AVFrame \<Rightarrow> int \<Rightarrow> string" where
  "row_text frame y =
     map (\<lambda>x. glyph (the (sample_at frame y x))) [0 .. width frame - 1] @ [newline]"

definition grid_text :: "AVFrame \<Rightarrow> string" where
  "grid_text frame = concat (map (row_text frame) [0 .. height frame - 1])"


section \<open>Double-precision arithmetic\<close>

text \<open>
  The geometry computation of \<open>init_filters\<close> is written in C \<open>double\<close>.  A finite
  \<open>double\<close> is modelled by the real number it denotes, and each arithmetic operation
  returns the exact result rounded to the nearest number with a 53-bit significand, ties to
  the even significand (IEEE 754 binary64, default rounding).  The exponent is not bounded:
  the operands of \<open>init_filters\<close> come from 32-bit integers, so every intermediate
  magnitude that is not 0 lies between \<open>2 ^ - 64\<close> and \<open>2 ^ 70\<close>, far inside the normal
  range.
  A division by zero has no finite result and is undefined in ISO C (6.5.5); it is
  \<open>None\<close> here, as is a conversion to \<open>int\<close> of a value outside the range of \<open>int\<close>
  (6.3.1.4) and an \<open>int\<close> multiplication that overflows (6.5).  In \<open>init_filters\<close> a
  division by zero needs a width or a height of 0; where the implementation follows
  Annex F of ISO C it gives an infinity or a NaN there, which are not modelled.
\<close>

type_synonym double = real

text \<open>\<open>ilog2 x\<close> is \<open>\<lfloor>log\<^sub>2 x\<rfloor>\<close> for \<open>x > 0\<close>, computed on integers.\<close>

definition ilog2 :: "real \<Rightarrow> int" where
  "ilog2 x = (if 1 \<le> x then bitlen \<lfloor>x\<rfloor> - 1 else - bitlen (\<lceil>1 / x\<rceil> - 1))"

text \<open>Rounding to the nearest integer, ties to even.\<close>

definition rne :: "real \<Rightarrow> int" where
  "rne y = (let f = \<lfloor>y\<rfloor>; d = y - of_int f
            in if d < 1 / 2 then f else if 1 / 2 < d then f + 1
               else if even f then f else f + 1)"

definition round_double :: "real \<Rightarrow> double" where
  "round_double x =
     (if x = 0 then 0
      else let e = ilog2 \<bar>x\<bar> - 52 in of_int (rne (x / 2 powi e)) * 2 powi e)"

definition fmul :: "double \<Rightarrow> double \<Rightarrow> double" where
  "fmul a b = round_double (a * b)"

definition fdiv :: "double \<Rightarrow> double \<Rightarrow> double option" where
  "fdiv a b = (if b = 0 then None else Some (round_double (a / b)))"

text \<open>\<open>round()\<close> of \<open>math.h\<close>: to the nearest integer, halfway cases away from zero.\<close>

definition c_round :: "double \<Rightarrow> double" where
  "c_round x = (if 0 \<le> x then of_int \<lfloor>x + 1 / 2\<rfloor> else - of_int \<lfloor>- x + 1 / 2\<rfloor>)"

definition INT_MIN :: int where
  "INT_MIN = - 2147483648"

definition INT_MAX :: int where
  "INT_MAX = 2147483647"

text \<open>The cast \<open>(int)x\<close>: truncation towards zero, undefined outside the range of \<open>int\<close>.\<close>

definition double_to_int :: "double \<Rightarrow> int option" where
  "double_to_int x =
     (let t = (if 0 \<le> x then \<lfloor>x\<rfloor> else \<lceil>x\<rceil>)
      in if INT_MIN \<le> t \<and> t \<le> INT_MAX then Some t else None)"

text \<open>The product of two \<open>int\<close>s, undefined when it overflows.\<close>

definition int_mul :: "int \<Rightarrow> int \<Rightarrow> int option" where
  "int_mul a b = (if INT_MIN \<le> a * b \<and> a * b \<le> INT_MAX then Some (a * b) else None)"

section \<open>Rationals, and the locals of the geometry computation\<close>

record AVRational =
  num :: int
  den :: int

text \<open>\<open>av_q2d\<close> of \<open>libavutil/rational.h\<close>: \<open>a.num / (double) a.den\<close>.\<close>

definition av_q2d :: "AVRational \<Rightarrow> double option" where
  "av_q2d a = fdiv (of_int (num a)) (of_int (den a))"

definition MAX_ASCII_WIDTH :: double where
  "MAX_ASCII_WIDTH = 80"

definition CHARACTER_ASPECT_RATIO :: double where
  "CHARACTER_ASPECT_RATIO = 1 / 2"

text \<open>
  The expression \<open>(double)((int)round(d / 2.0) * 2)\<close> of lines 188 and 189.
\<close>

definition make_even :: "double \<Rightarrow> double option" where
  "make_even d =
     (case fdiv d 2 of
        None \<Rightarrow> None
      | Some half \<Rightarrow>
          (case double_to_int (c_round half) of
             None \<Rightarrow> None
           | Some i \<Rightarrow>
               (case int_mul i 2 of
                  None \<Rightarrow> None
                | Some j \<Rightarrow> Some (of_int j))))"

text \<open>
  What lines 164 to 193 leave in the locals that the rest of \<open>init_filters\<close> reads:
  \<open>video_display_aspect_ratio\<close> (logged), and \<open>(int)target_width\<close> and
  \<open>(int)target_height\<close>, the two numbers printed into \<open>filters_descr\<close>.
\<close>

record scale =
  video_display_aspect_ratio :: double
  columns :: int
  rows :: int

section \<open>The program state and the FFmpeg libraries\<close>

text \<open>
  The error codes of \<open>libavutil/error.h\<close> that the program compares against:
  \<open>AVERROR(EAGAIN)\<close> is \<open>-EAGAIN\<close> (\<open>EAGAIN\<close> is 11 on Linux), \<open>AVERROR(ENOMEM)\<close> is
  \<open>-ENOMEM\<close>, and \<open>AVERROR_EOF\<close> is \<open>-MKTAG('E','O','F',' ')\<close>.
\<close>

definition AVERROR_EAGAIN :: int where
  "AVERROR_EAGAIN = - 11"

definition AVERROR_ENOMEM :: int where
  "AVERROR_ENOMEM = - 12"

definition AVERROR_EOF :: int where
  "AVERROR_EOF = - 541478725"

text \<open>
  The libraries are outside the program.  One run is described by what each library call
  returned in it: a call that is made once has one field, and a call that is made in a loop
  has the list of the values it returned, in call order (the \<open>k\<close>-th call returns the
  \<open>k\<close>-th element).  A call whose list is used up does not return: the program waits in
  it for ever.  An allocation returns \<open>NULL\<close> or a pointer to what it allocated.
  \<open>av_read_frame\<close> returns its code and the \<open>stream_index\<close> of the packet it filled;
  \<open>av_buffersink_get_frame\<close> returns its code and the frame it stored in \<open>filt_frame\<close>.
  \<open>dec_width\<close>, \<open>dec_height\<close>, \<open>pix_fmt\<close> and \<open>sample_aspect_ratio\<close> are the fields of
  \<open>dec_ctx\<close> once the decoder is open, and \<open>time_base\<close> is that of the selected stream.
\<close>

datatype pointer = NULL | Allocated

record libav =
  avformat_open_input :: int
  avformat_find_stream_info :: int
  av_find_best_stream :: int
  avcodec_alloc_context3 :: pointer
  avcodec_open2 :: int
  dec_width :: int
  dec_height :: int
  pix_fmt :: int
  sample_aspect_ratio :: AVRational
  time_base :: AVRational
  avfilter_inout_alloc_outputs :: pointer
  avfilter_inout_alloc_inputs :: pointer
  avfilter_graph_alloc :: pointer
  avfilter_graph_create_filter_in :: int
  avfilter_graph_create_filter_out :: int
  av_opt_set_int_list :: int
  avfilter_graph_parse_ptr :: int
  avfilter_graph_config :: int
  av_frame_alloc_frame :: pointer
  av_frame_alloc_filt_frame :: pointer
  av_packet_alloc :: pointer
  av_read_frame :: "(int \<times> int) list"
  avcodec_send_packet :: "int list"
  avcodec_receive_frame :: "int list"
  av_buffersrc_add_frame_flags :: "int list"
  av_buffersink_get_frame :: "(int \<times> AVFrame) list"

text \<open>
  What the program writes to \<open>stderr\<close>, one constructor for each \<open>fprintf(stderr, ...)\<close>
  and each \<open>av_log\<close> of the source, with the values that are printed into it.
\<close>

datatype message =
    Usage
  | Could_not_allocate_frame_or_packet
  | Cannot_open_input_file
  | Cannot_find_stream_information
  | Cannot_find_a_video_stream
  | Cannot_open_video_decoder
  | Cannot_create_buffer_source
  | Cannot_create_buffer_sink
  | Cannot_set_output_pixel_format
  | Input_video_resolution int int AVRational double
  | Terminal_character_aspect_ratio_compensation double
  | Applying_filter int int
  | Output_ASCII_dimensions int int
  | Cannot_parse_graph_description int
  | Cannot_configure_filter_graph int
  | Error_reading_frame_from_input int
  | Error_while_sending_a_packet_to_the_decoder int
  | Error_while_receiving_a_frame_from_the_decoder int
  | Error_while_feeding_the_filtergraph int
  | Error_while_pulling_from_filtergraph int
  | Program_finished_with_an_error int
  | End_of_file_reached_but_no_video_frame_could_be_displayed

text \<open>
  The variables of the program: \<open>ret\<close> and \<open>frame_displayed\<close> of \<open>main\<close>, the global
  \<open>video_stream_index\<close>, the two output streams, and what is left of the libraries'
  answers.  \<open>frame_displayed\<close> is \<open>None\<close> while its value is indeterminate: the
  declaration \<open>int frame_displayed = 0\<close> of line 279 comes after the two \<open>goto end\<close> of
  lines 272 and 276, which jump over it into its scope.
\<close>

record state =
  ret :: int
  frame_displayed :: "int option"
  video_stream_index :: int
  out :: stdout
  err :: "message list"
  lib :: libav

definition log :: "message \<Rightarrow> state \<Rightarrow> state" where
  "log m s = s\<lparr>err := err s @ [m]\<rparr>"

text \<open>
  How a piece of the program ends: it runs to its end (\<open>Next\<close>), it leaves the
  enclosing loop by \<open>break\<close> (\<open>Break\<close>), it jumps to the label \<open>end\<close> of \<open>main\<close>
  (\<open>Goto_end\<close>), it waits for ever in a library call (\<open>Blocked\<close>), or its behaviour
  is undefined (\<open>Undefined\<close>).
\<close>

datatype flow = Next state | Break state | Goto_end state | Blocked | Undefined

text \<open>How the process ends: with an exit status, what it wrote, and what it logged.\<close>

datatype outcome =
    Exit (status: int) (written: stdout) (logged: "message list")
  | Never_exits
  | Undefined_behaviour

section \<open>\<open>open_input_file\<close>\<close>

definition open_input_file :: "state \<Rightarrow> int \<times> state" where
  "open_input_file s =
     (let ret = avformat_open_input (lib s) in
      if ret < 0 then (ret, log Cannot_open_input_file s)
      else
      let ret = avformat_find_stream_info (lib s) in
      if ret < 0 then (ret, log Cannot_find_stream_information s)
      else
      let ret = av_find_best_stream (lib s) in
      if ret < 0 then (ret, log Cannot_find_a_video_stream s)
      else
      let s = s\<lparr>video_stream_index := ret\<rparr> in
      if avcodec_alloc_context3 (lib s) = NULL then (AVERROR_ENOMEM, s)
      else
      let ret = avcodec_open2 (lib s) in
      if ret < 0 then (ret, log Cannot_open_video_decoder s)
      else (0, s))"

section \<open>The geometry computation of \<open>init_filters\<close>\<close>

text \<open>
  Lines 164 to 199 of \<open>init_filters\<close>.  They read the two parameters and the global
  \<open>dec_ctx->sample_aspect_ratio\<close>.  Each \<open>let\<close> is one assignment of the source,
  in the source's order.
\<close>

definition dynamic_scale :: "int \<Rightarrow> int \<Rightarrow> state \<Rightarrow> scale option" where
  "dynamic_scale input_width input_height s =
     (let video_width = (of_int input_width :: double);
          video_height = (of_int input_height :: double)
      in
      case (if num (sample_aspect_ratio (lib s)) > 0 \<and> den (sample_aspect_ratio (lib s)) > 0
            then map_option (fmul video_width) (av_q2d (sample_aspect_ratio (lib s)))
            else Some video_width) of
        None \<Rightarrow> None
      | Some video_width \<Rightarrow>
      (case fdiv video_width video_height of
        None \<Rightarrow> None
      | Some dar \<Rightarrow>
      (case fdiv dar CHARACTER_ASPECT_RATIO of
        None \<Rightarrow> None
      | Some adjusted_aspect_ratio \<Rightarrow>
      (let target_width = MAX_ASCII_WIDTH in
       case fdiv target_width adjusted_aspect_ratio of
        None \<Rightarrow> None
      | Some ratio \<Rightarrow>
      (let target_height = c_round ratio;
           target_height = (if target_height < 1 then 1 else target_height)
       in
       case make_even target_width of
        None \<Rightarrow> None
      | Some target_width \<Rightarrow>
      (case make_even target_height of
        None \<Rightarrow> None
      | Some target_height \<Rightarrow>
      (let target_width = (if target_width = 0 then 2 else target_width);
           target_height = (if target_height = 0 then 2 else target_height)
       in
       case double_to_int target_width of
        None \<Rightarrow> None
      | Some w \<Rightarrow>
      (case double_to_int target_height of
        None \<Rightarrow> None
      | Some h \<Rightarrow>
          Some \<lparr>video_display_aspect_ratio = dar, columns = w, rows = h\<rparr>))))))))"


section \<open>\<open>init_filters\<close>\<close>

text \<open>
  The function returns \<open>ret\<close>; \<open>None\<close> is undefined behaviour in the geometry
  computation.  Every \<open>goto end\<close> of the function returns the \<open>ret\<close> it has at that
  point.
\<close>

definition init_filters :: "int \<Rightarrow> int \<Rightarrow> state \<Rightarrow> (int \<times> state) option" where
  "init_filters input_width input_height s =
     (if avfilter_inout_alloc_outputs (lib s) = NULL \<or> avfilter_inout_alloc_inputs (lib s) = NULL
         \<or> avfilter_graph_alloc (lib s) = NULL
      then Some (AVERROR_ENOMEM, s)
      else
      let ret = avfilter_graph_create_filter_in (lib s) in
      if ret < 0 then Some (ret, log Cannot_create_buffer_source s)
      else
      let ret = avfilter_graph_create_filter_out (lib s) in
      if ret < 0 then Some (ret, log Cannot_create_buffer_sink s)
      else
      let ret = av_opt_set_int_list (lib s) in
      if ret < 0 then Some (ret, log Cannot_set_output_pixel_format s)
      else
      case dynamic_scale input_width input_height s of
        None \<Rightarrow> None
      | Some g \<Rightarrow>
      (let s = log (Input_video_resolution input_width input_height
                      (sample_aspect_ratio (lib s)) (video_display_aspect_ratio g)) s;
           s = log (Terminal_character_aspect_ratio_compensation CHARACTER_ASPECT_RATIO) s;
           s = log (Applying_filter (columns g) (rows g)) s;
           s = log (Output_ASCII_dimensions (columns g) (rows g)) s;
           ret = avfilter_graph_parse_ptr (lib s)
       in
       if ret < 0 then Some (ret, log (Cannot_parse_graph_description ret) s)
       else
       let ret = avfilter_graph_config (lib s) in
       if ret < 0 then Some (ret, log (Cannot_configure_filter_graph ret) s)
       else Some (ret, s)))"

section \<open>The read loop of \<open>main\<close>\<close>

text \<open>
  Each loop is a recursive function over the body of the loop, and the body says how it
  ends: it reaches its end (\<open>Next\<close>), it leaves the loop (\<open>Break\<close>), or it leaves
  the program (\<open>Goto_end\<close>, \<open>Blocked\<close>, \<open>Undefined\<close>).

  Lines 318 to 330, the body of the loop \<open>while (1)\<close> that pulls from the filter graph.
  The assignment \<open>frame_displayed = 1\<close> of line 329 is inside a comment: nothing is
  assigned there.
\<close>

definition pull_body :: "state \<Rightarrow> flow" where
  "pull_body s =
     (case av_buffersink_get_frame (lib s) of
        [] \<Rightarrow> Blocked
      | (r, filt_frame) # rest \<Rightarrow>
          (let s = s\<lparr>ret := r, lib := (lib s)\<lparr>av_buffersink_get_frame := rest\<rparr>\<rparr> in
           if r = AVERROR_EAGAIN \<or> r = AVERROR_EOF then Break s
           else if r < 0 then Goto_end (log (Error_while_pulling_from_filtergraph r) s)
           else
             (case display_frame filt_frame (out s) of
                None \<Rightarrow> Undefined
              | Some out' \<Rightarrow> Break (s\<lparr>out := out'\<rparr>))))"

function pull_loop :: "state \<Rightarrow> flow" where
  "pull_loop s =
     (case pull_body s of
        Next s' \<Rightarrow> pull_loop s'
      | Break s' \<Rightarrow> Next s'
      | other \<Rightarrow> other)"
  by pat_completeness auto
termination
proof (relation "{}")
  show "wf {}"
    by simp
next
  fix s s' :: state
  assume "pull_body s = Next s'"
  then show "(s', s) \<in> {}"
    by (simp add: pull_body_def Let_def split: list.splits prod.splits if_splits option.splits)
qed

declare pull_loop.simps [simp del]

text \<open>
  Lines 299 to 335, the body of the loop \<open>while (ret >= 0)\<close> that receives the frames of
  one packet.  The \<open>break\<close> of line 313 leaves \<open>ret\<close> as \<open>avcodec_receive_frame\<close> set
  it.
\<close>

definition receive_body :: "state \<Rightarrow> flow" where
  "receive_body s =
     (case avcodec_receive_frame (lib s) of
        [] \<Rightarrow> Blocked
      | r # rest \<Rightarrow>
          (let s = s\<lparr>ret := r, lib := (lib s)\<lparr>avcodec_receive_frame := rest\<rparr>\<rparr> in
           if r = AVERROR_EAGAIN \<or> r = AVERROR_EOF then Break s
           else if r < 0 then
             Goto_end (log (Error_while_receiving_a_frame_from_the_decoder r) s)
           else
             (case av_buffersrc_add_frame_flags (lib s) of
                [] \<Rightarrow> Blocked
              | a # rest' \<Rightarrow>
                  (let s = s\<lparr>lib := (lib s)\<lparr>av_buffersrc_add_frame_flags := rest'\<rparr>\<rparr> in
                   if a < 0 then
                     Break (log (Error_while_feeding_the_filtergraph (ret s)) s)
                   else
                     (case pull_loop s of
                        Next s \<Rightarrow>
                          (case frame_displayed s of
                             None \<Rightarrow> Undefined
                           | Some d \<Rightarrow> if d \<noteq> 0 then Break s else Next s)
                      | other \<Rightarrow> other)))))"

function receive_loop :: "state \<Rightarrow> flow" where
  "receive_loop s =
     (if ret s \<ge> 0 then
        (case receive_body s of
           Next s' \<Rightarrow> receive_loop s'
         | Break s' \<Rightarrow> Next s'
         | other \<Rightarrow> other)
      else Next s)"
  by pat_completeness auto
termination
proof (relation "measure (\<lambda>s. length (avcodec_receive_frame (lib s)))")
  show "wf (measure (\<lambda>s. length (avcodec_receive_frame (lib s))))"
    by simp
next
  fix s s' :: state
  have pull: "avcodec_receive_frame (lib t') = avcodec_receive_frame (lib t)"
    if "pull_loop t = Next t'" for t t'
    using that
    by (subst (asm) pull_loop.simps)
      (auto simp: pull_body_def Let_def split: list.splits if_splits option.splits flow.splits)
  assume "receive_body s = Next s'"
  then have "length (avcodec_receive_frame (lib s')) < length (avcodec_receive_frame (lib s))"
    by (auto simp: receive_body_def Let_def
        split: list.splits if_splits option.splits flow.splits dest!: pull)
  then show "(s', s) \<in> measure (\<lambda>s. length (avcodec_receive_frame (lib s)))"
    by simp
qed

declare receive_loop.simps [simp del]

text \<open>
  Lines 281 to 341, the body of the loop \<open>while (!frame_displayed)\<close> that reads packets.
\<close>

definition read_body :: "state \<Rightarrow> flow" where
  "read_body s =
     (case av_read_frame (lib s) of
        [] \<Rightarrow> Blocked
      | (r, stream_index) # rest \<Rightarrow>
          (let s = s\<lparr>ret := r, lib := (lib s)\<lparr>av_read_frame := rest\<rparr>\<rparr> in
           if r < 0 then
             Break (if r \<noteq> AVERROR_EOF then log (Error_reading_frame_from_input r) s else s)
           else
             (case
                (if stream_index = video_stream_index s then
                   (case avcodec_send_packet (lib s) of
                      [] \<Rightarrow> Blocked
                    | r' # rest' \<Rightarrow>
                        (let s = s\<lparr>ret := r', lib := (lib s)\<lparr>avcodec_send_packet := rest'\<rparr>\<rparr>;
                             s = (if r' < 0
                                  then log (Error_while_sending_a_packet_to_the_decoder r') s
                                  else s)
                         in
                         if r' < 0 \<and> r' \<noteq> AVERROR_EAGAIN \<and> r' \<noteq> AVERROR_EOF then Break s
                         else receive_loop s))
                 else Next s)
              of
                Next s \<Rightarrow>
                  (case frame_displayed s of
                     None \<Rightarrow> Undefined
                   | Some d \<Rightarrow> if d \<noteq> 0 then Break s else Next s)
              | other \<Rightarrow> other)))"

function read_loop :: "state \<Rightarrow> flow" where
  "read_loop s =
     (case frame_displayed s of
        None \<Rightarrow> Undefined
      | Some d \<Rightarrow>
          if d = 0 then
            (case read_body s of
               Next s' \<Rightarrow> read_loop s'
             | Break s' \<Rightarrow> Next s'
             | other \<Rightarrow> other)
          else Next s)"
  by pat_completeness auto
termination
proof (relation "measure (\<lambda>s. length (av_read_frame (lib s)))")
  show "wf (measure (\<lambda>s. length (av_read_frame (lib s))))"
    by simp
next
  fix s s' :: state and d :: int
  have pull: "av_read_frame (lib t') = av_read_frame (lib t)"
    if "pull_loop t = Next t'" for t t'
    using that
    by (subst (asm) pull_loop.simps)
      (auto simp: pull_body_def Let_def split: list.splits if_splits option.splits flow.splits)
  have no_break: "pull_loop t \<noteq> Break t'" for t t'
    by (subst pull_loop.simps)
      (auto simp: pull_body_def Let_def split: list.splits if_splits option.splits flow.splits)
  have body: "av_read_frame (lib t') = av_read_frame (lib t)"
    if "receive_body t = Next t' \<or> receive_body t = Break t'" for t t'
    using that
    by (auto simp: receive_body_def Let_def log_def no_break
        split: list.splits if_splits option.splits flow.splits dest!: pull)
  have loop: "receive_loop t = Next t' \<Longrightarrow> av_read_frame (lib t') = av_read_frame (lib t)"
    for t t'
  proof (induction t rule: receive_loop.induct)
    case (1 t)
    show ?case
    proof (cases "ret t \<ge> 0")
      case False
      with "1.prems" show ?thesis
        by (simp add: receive_loop.simps [of t])
    next
      case True
      show ?thesis
      proof (cases "receive_body t")
        case (Next u)
        with True "1.prems" have "receive_loop u = Next t'"
          by (simp add: receive_loop.simps [of t])
        with "1.IH" [OF True Next] body [of t u] Next show ?thesis
          by simp
      next
        case (Break u)
        with True "1.prems" body [of t u] show ?thesis
          by (simp add: receive_loop.simps [of t])
      qed (use True "1.prems" in \<open>simp_all add: receive_loop.simps [of t]\<close>)
    qed
  qed
  assume "read_body s = Next s'"
  then have "length (av_read_frame (lib s')) < length (av_read_frame (lib s))"
    by (auto simp: read_body_def Let_def log_def
        split: list.splits if_splits option.splits flow.splits dest!: loop)
  then show "(s', s) \<in> measure (\<lambda>s. length (av_read_frame (lib s)))"
    by simp
qed

declare read_loop.simps [simp del]

section \<open>\<open>main\<close>\<close>

text \<open>
  Lines 344 to 362, from the label \<open>end\<close>: the resources are freed and the exit status is
  chosen.  Either the first condition reads \<open>frame_displayed\<close> or the second one does,
  which is undefined while its value is indeterminate.
\<close>

definition report :: "state \<Rightarrow> outcome" where
  "report s =
     (case frame_displayed s of
        None \<Rightarrow> Undefined_behaviour
      | Some d \<Rightarrow>
          if ret s < 0 \<and> ret s \<noteq> AVERROR_EOF \<and> d = 0 then
            Exit 1 (out s) (err s @ [Program_finished_with_an_error (ret s)])
          else if d = 0 \<and> ret s = AVERROR_EOF then
            Exit 1 (out s)
              (err s @ [End_of_file_reached_but_no_video_frame_could_be_displayed])
          else Exit 0 (out s) (err s))"

text \<open>
  \<open>main\<close>, given \<open>argc\<close> and the libraries' answers.  \<open>ret\<close> has no initial value in the
  source and is assigned at line 271 before it is read, so the \<open>0\<close> below is never read.
\<close>

definition main :: "int \<Rightarrow> libav \<Rightarrow> outcome" where
  "main argc l =
     (if argc \<noteq> 2 then Exit 1 [] [Usage]
      else if av_frame_alloc_frame l = NULL \<or> av_frame_alloc_filt_frame l = NULL
              \<or> av_packet_alloc l = NULL
      then Exit 1 [] [Could_not_allocate_frame_or_packet]
      else
      let s = \<lparr>ret = 0, frame_displayed = None, video_stream_index = - 1,
               out = [], err = [], lib = l\<rparr>;
          (r, s) = open_input_file s;
          s = s\<lparr>ret := r\<rparr>
      in
      if r < 0 then report s
      else
      case init_filters (dec_width (lib s)) (dec_height (lib s)) s of
        None \<Rightarrow> Undefined_behaviour
      | Some (r, s) \<Rightarrow>
      (let s = s\<lparr>ret := r\<rparr> in
       if r < 0 then report s
       else
       let s = s\<lparr>frame_displayed := Some 0\<rparr> in
       case read_loop s of
         Next s \<Rightarrow> report s
       | Break s \<Rightarrow> report s
       | Goto_end s \<Rightarrow> report s
       | Blocked \<Rightarrow> Never_exits
       | Undefined \<Rightarrow> Undefined_behaviour))"


section \<open>The row count as the specification words it\<close>

text \<open>
  The specification gives the rows of the grid as
  \<open>round(80 / ((srcWidth * sarReal / srcHeight) / 0.5))\<close>, floored at 1, rounded to the
  nearest even integer by \<open>round(x / 2) * 2\<close>, and clamped to at least 2.  This is that
  formula, written as one expression from the specification's sentence and not from the
  source, with the products and quotients in double precision; it is compared with
  \<open>dynamic_scale\<close> below.
\<close>

definition spec_rows :: "int \<Rightarrow> int \<Rightarrow> AVRational \<Rightarrow> int" where
  "spec_rows srcWidth srcHeight sar =
     (let sarReal = round_double (of_int (num sar) / of_int (den sar));
          correctedWidth = round_double (of_int srcWidth * sarReal);
          dar = round_double (correctedWidth / of_int srcHeight);
          adjustedAspect = round_double (dar / (1 / 2));
          targetRows = c_round (round_double (80 / adjustedAspect));
          targetRows = max targetRows 1;
          targetRows = c_round (round_double (targetRows / 2)) * 2
      in max \<lfloor>targetRows\<rfloor> 2)"


text \<open>
  The specification treats a sample aspect ratio as \<open>1 / 1\<close> when either component is
  not positive.
\<close>

definition effective_sar :: "AVRational \<Rightarrow> AVRational" where
  "effective_sar sar = (if num sar > 0 \<and> den sar > 0 then sar else \<lparr>num = 1, den = 1\<rparr>)"

section \<open>The answers of the filter graph with Drained read as Empty\<close>

text \<open>
  \<open>av_buffersink_get_frame\<close> answers \<open>AVERROR(EAGAIN)\<close> when the graph needs more input
  (Empty) and \<open>AVERROR_EOF\<close> when it will produce nothing more (Drained).
  \<open>without_drained l\<close> is the run \<open>l\<close> in which every answer Drained is replaced by
  Empty.
\<close>

definition drained_as_empty :: "int \<times> AVFrame \<Rightarrow> int \<times> AVFrame" where
  "drained_as_empty p = (if fst p = AVERROR_EOF then (AVERROR_EAGAIN, snd p) else p)"

definition without_drained :: "libav \<Rightarrow> libav" where
  "without_drained l = l\<lparr>av_buffersink_get_frame := map drained_as_empty (av_buffersink_get_frame l)\<rparr>"

section \<open>Inputs used as examples\<close>

text \<open>
  A frame of two rows of two samples, \<open>0, 255\<close> and \<open>255, 0\<close>, stored without padding,
  and the same picture stored with two bytes of padding after each row.
\<close>

definition frame2x2 :: AVFrame where
  "frame2x2 = \<lparr>width = 2, height = 2, linesize = 2,
     data = [0 \<mapsto> 0, 1 \<mapsto> 255, 2 \<mapsto> 255, 3 \<mapsto> 0]\<rparr>"

definition frame2x2_padded :: AVFrame where
  "frame2x2_padded = \<lparr>width = 2, height = 2, linesize = 4,
     data = [0 \<mapsto> 0, 1 \<mapsto> 255, 2 \<mapsto> 7, 3 \<mapsto> 9, 4 \<mapsto> 255, 5 \<mapsto> 0, 6 \<mapsto> 7, 7 \<mapsto> 9]\<rparr>"

text \<open>What \<open>display_frame\<close> writes for that picture.\<close>

definition picture2x2 :: stdout where
  "picture2x2 = map Putchar (cursor_home @ '' #'' @ [newline] @ ''# '' @ [newline]) @ [Fflush]"

text \<open>
  A frame of 40 rows of 80 samples that all have the value \<open>v\<close>, stored without
  padding, and what \<open>display_frame\<close> writes for a frame.
\<close>

definition gray_frame :: "uint8_t \<Rightarrow> AVFrame" where
  "gray_frame v = \<lparr>width = 80, height = 40, linesize = 80,
     data = (\<lambda>i. if 0 \<le> i \<and> i < 3200 then Some v else None)\<rparr>"

definition picture :: "AVFrame \<Rightarrow> stdout" where
  "picture frame = map Putchar cursor_home @ map Putchar (grid_text frame) @ [Fflush]"

text \<open>
  The libraries' answers for a file that opens: stream 0 is a video stream of
  \<open>720 \<times> 720\<close> square pixels, every allocation and every set-up call succeeds,
  and no packet is read yet.
\<close>

definition opened :: libav where
  "opened = \<lparr>
     avformat_open_input = 0,
     avformat_find_stream_info = 0,
     av_find_best_stream = 0,
     avcodec_alloc_context3 = Allocated,
     avcodec_open2 = 0,
     dec_width = 720,
     dec_height = 720,
     pix_fmt = 0,
     sample_aspect_ratio = \<lparr>num = 1, den = 1\<rparr>,
     time_base = \<lparr>num = 1, den = 25\<rparr>,
     avfilter_inout_alloc_outputs = Allocated,
     avfilter_inout_alloc_inputs = Allocated,
     avfilter_graph_alloc = Allocated,
     avfilter_graph_create_filter_in = 0,
     avfilter_graph_create_filter_out = 0,
     av_opt_set_int_list = 0,
     avfilter_graph_parse_ptr = 0,
     avfilter_graph_config = 0,
     av_frame_alloc_frame = Allocated,
     av_frame_alloc_filt_frame = Allocated,
     av_packet_alloc = Allocated,
     av_read_frame = [],
     avcodec_send_packet = [],
     avcodec_receive_frame = [],
     av_buffersrc_add_frame_flags = [],
     av_buffersink_get_frame = []\<rparr>"

text \<open>What \<open>init_filters\<close> logs for that file.\<close>

definition startup_log :: "message list" where
  "startup_log =
     [Input_video_resolution 720 720 \<lparr>num = 1, den = 1\<rparr> 1,
      Terminal_character_aspect_ratio_compensation (1 / 2),
      Applying_filter 80 40,
      Output_ASCII_dimensions 80 40]"

text \<open>
  A stream with one video packet, which the decoder turns into one frame and the filter
  graph into one frame of the size it was configured for; then the stream ends.
\<close>

definition one_frame :: libav where
  "one_frame = opened\<lparr>
     av_read_frame := [(0, 0), (AVERROR_EOF, 0)],
     avcodec_send_packet := [0],
     avcodec_receive_frame := [0, AVERROR_EAGAIN],
     av_buffersrc_add_frame_flags := [0],
     av_buffersink_get_frame := [(0, gray_frame 0)]\<rparr>"

text \<open>The same with two video packets.\<close>

definition two_frames :: libav where
  "two_frames = opened\<lparr>
     av_read_frame := [(0, 0), (0, 0), (AVERROR_EOF, 0)],
     avcodec_send_packet := [0, 0],
     avcodec_receive_frame := [0, AVERROR_EAGAIN, 0, AVERROR_EAGAIN],
     av_buffersrc_add_frame_flags := [0, 0],
     av_buffersink_get_frame := [(0, gray_frame 0), (0, gray_frame 255)]\<rparr>"

text \<open>
  Two video packets again.  For the frame of the first packet the filter graph answers
  \<open>pull\<close>: \<open>AVERROR_EOF\<close> in \<open>drained_then_frame\<close>, and \<open>AVERROR(EINVAL)\<close>, which
  is \<open>-22\<close>, in \<open>failed_then_frame\<close>.  For the frame of the second packet it answers
  with a frame.
\<close>

definition pulls_first :: "int \<Rightarrow> libav" where
  "pulls_first pull = opened\<lparr>
     av_read_frame := [(0, 0), (0, 0), (AVERROR_EOF, 0)],
     avcodec_send_packet := [0, 0],
     avcodec_receive_frame := [0, 0, AVERROR_EAGAIN],
     av_buffersrc_add_frame_flags := [0, 0],
     av_buffersink_get_frame := [(pull, gray_frame 0), (0, gray_frame 255)]\<rparr>"

definition drained_then_frame :: libav where
  "drained_then_frame = pulls_first AVERROR_EOF"

definition failed_then_frame :: libav where
  "failed_then_frame = pulls_first (- 22)"

text \<open>
  The state in which \<open>main\<close> calls \<open>init_filters\<close> for the file \<open>opened\<close>, with the
  sample aspect ratio of the decoder replaced by \<open>n / d\<close>.
\<close>

definition with_sar :: "int \<Rightarrow> int \<Rightarrow> state" where
  "with_sar n d =
     \<lparr>ret = 0, frame_displayed = None, video_stream_index = 0, out = [], err = [],
      lib = opened\<lparr>sample_aspect_ratio := \<lparr>num = n, den = d\<rparr>\<rparr>\<rparr>"

section \<open>Properties of the glyph renderer\<close>

lemma glyph_index_less: "glyph_index b < length ramp"
proof -
  have "unat b < 256"
    using unsigned_less [of b] by simp
  then show ?thesis
    by (simp add: glyph_index_def ramp_def)
qed

lemma upto_0_1: "[0 .. 1 :: int] = [0, 1]"
  by (simp add: upto_rec1)

lemmas render_defs =
  display_frame_def printf_def putchar_def fflush_def glyph_def glyph_index_def ramp_def

lemma display_frame2x2: "display_frame frame2x2 os = Some (os @ picture2x2)"
  by (simp add: render_defs frame2x2_def picture2x2_def frame_loop.simps row_loop.simps)

lemma display_frame2x2_padded: "display_frame frame2x2_padded os = Some (os @ picture2x2)"
  by (simp add: render_defs frame2x2_padded_def picture2x2_def frame_loop.simps
      row_loop.simps)

subsection \<open>What the loops write when every sample is readable\<close>

lemma row_loop_ok:
  assumes "\<forall>k \<in> {x ..< width f}. data f (p + (k - x)) \<noteq> None"
  shows "row_loop f x p os = Some (os @ map (\<lambda>k. Putchar (glyph (the (data f (p + (k - x)))))) [x .. width f - 1])"
  using assms
proof (induction f x p os rule: row_loop.induct)
  case (1 frame x p os)
  show ?case
  proof (cases "x < width frame")
    case False
    then show ?thesis by (subst row_loop.simps) simp
  next
    case True
    from 1(2) True obtain b where b: "data frame p = Some b"
      by (metis add.right_neutral atLeastLessThan_iff cancel_comm_monoid_add_class.diff_cancel not_None_eq order_refl)
    have "\<forall>k\<in>{x + 1..<width frame}. data frame (p + 1 + (k - (x + 1))) \<noteq> None"
      using 1(2) by (auto simp: algebra_simps)
    from 1(1) [OF True b this]
    show ?thesis
      apply (subst row_loop.simps)
      using True b
      apply (simp add: putchar_def)
      apply (subst (2) upto_rec1)
       apply simp
      apply (simp add: algebra_simps)
      done
  qed
qed

lemma row_loop_row_text:
  assumes "\<forall>x \<in> {0 ..< width f}. sample_at f y x \<noteq> None"
  shows "row_loop f 0 (y * linesize f) os =
         Some (os @ map Putchar (map (\<lambda>x. glyph (the (sample_at f y x))) [0 .. width f - 1]))"
proof -
  have "\<forall>k \<in> {0 ..< width f}. data f (y * linesize f + (k - 0)) \<noteq> None"
    using assms by (simp add: sample_at_def)
  from row_loop_ok [OF this, of os]
  show ?thesis by (simp add: sample_at_def comp_def)
qed

lemma frame_loop_ok:
  assumes "\<forall>k \<in> {y ..< height f}. \<forall>x \<in> {0 ..< width f}. sample_at f k x \<noteq> None"
  shows "frame_loop f y (y * linesize f) os =
         Some (os @ map Putchar (concat (map (row_text f) [y .. height f - 1])))"
  using assms
proof (induction f y "y * linesize f" os rule: frame_loop.induct)
  case (1 frame y os)
  show ?case
  proof (cases "y < height frame")
    case False
    then show ?thesis by (subst frame_loop.simps) simp
  next
    case True
    have row: "\<forall>x \<in> {0 ..< width frame}. sample_at frame y x \<noteq> None"
      using 1(2) True by simp
    note r = row_loop_row_text [OF row, of os]
    have p: "y * linesize frame + linesize frame = (y + 1) * linesize frame"
      by (simp add: algebra_simps)
    have rest: "\<forall>k \<in> {y + 1 ..< height frame}. \<forall>x \<in> {0 ..< width frame}. sample_at frame k x \<noteq> None"
      using 1(2) by simp
    note ih = 1(1) [OF True r p rest]
    have u: "[y .. height frame - 1] = y # [y + 1 .. height frame - 1]"
      using True by (simp add: upto_rec1)
    show ?thesis
      apply (subst frame_loop.simps)
      using True r ih
      apply (simp add: p u)
      apply (simp add: row_text_def putchar_def)
      done
  qed
qed

lemma display_frame_picture:
  assumes "\<forall>y \<in> {0 ..< height f}. \<forall>x \<in> {0 ..< width f}. sample_at f y x \<noteq> None"
  shows "display_frame f os = Some (os @ picture f)"
  using frame_loop_ok [OF assms, of "printf cursor_home os"]
  by (simp add: display_frame_def grid_text_def printf_def fflush_def picture_def)

lemma display_gray_frame: "display_frame (gray_frame v) os = Some (os @ picture (gray_frame v))"
proof (rule display_frame_picture)
  show "\<forall>y \<in> {0 ..< height (gray_frame v)}. \<forall>x \<in> {0 ..< width (gray_frame v)}.
      sample_at (gray_frame v) y x \<noteq> None"
    by (auto simp add: gray_frame_def sample_at_def)
qed

lemma sample_at_gray:
  "0 \<le> y \<Longrightarrow> y \<le> 39 \<Longrightarrow> 0 \<le> x \<Longrightarrow> x \<le> 79 \<Longrightarrow> sample_at (gray_frame v) y x = Some v"
  by (simp add: gray_frame_def sample_at_def)

lemma grid_text_gray: "set (grid_text (gray_frame v)) = {glyph v, newline}"
proof -
  have row: "set (row_text (gray_frame v) y) = {glyph v, newline}" if "0 \<le> y" "y \<le> 39" for y
  proof -
    have "(\<lambda>x. glyph (the (sample_at (gray_frame v) y x))) ` {0 .. 79} = {glyph v}"
    proof -
      have "glyph (the (sample_at (gray_frame v) y x)) = glyph v" if "x \<in> {0 .. 79}" for x
        using that \<open>0 \<le> y\<close> \<open>y \<le> 39\<close> by (simp add: sample_at_gray)
      then have "(\<lambda>x. glyph (the (sample_at (gray_frame v) y x))) ` {0 .. 79} =
          (\<lambda>x. glyph v) ` {0 .. 79 :: int}"
        by (intro image_cong) simp_all
      also have "\<dots> = {glyph v}"
        by (simp add: image_constant_conv)
      finally show ?thesis .
    qed
    then show ?thesis
      by (simp add: row_text_def gray_frame_def [of v, THEN arg_cong [where f = width]] insert_commute)
  qed
  have "set (grid_text (gray_frame v)) = (\<Union>y \<in> {0 .. 39}. set (row_text (gray_frame v) y))"
    by (simp add: grid_text_def gray_frame_def [of v, THEN arg_cong [where f = height]])
  also have "\<dots> = (\<Union>y \<in> {0 .. 39 :: int}. {glyph v, newline})"
    using row by simp
  also have "\<dots> = {glyph v, newline}"
    by auto
  finally show ?thesis .
qed

lemma pictures_differ: "picture (gray_frame 0) \<noteq> picture (gray_frame 255)"
proof
  assume "picture (gray_frame 0) = picture (gray_frame 255)"
  then have "grid_text (gray_frame 0) = grid_text (gray_frame 255)"
    by (simp add: picture_def inj_map_eq_map [of Putchar] inj_on_def)
  then have "set (grid_text (gray_frame 0)) = set (grid_text (gray_frame 255))"
    by simp
  then show False
    by (simp add: grid_text_gray glyph_def glyph_index_def ramp_def newline_def doubleton_eq_iff)
qed

subsection \<open>The loops read the samples and nothing else\<close>

lemma row_loop_cong:
  assumes "width g = width f"
    and "\<forall>k \<in> {x ..< width f}. data g (q + (k - x)) = data f (p + (k - x))"
  shows "row_loop g x q os = row_loop f x p os"
  using assms
proof (induction f x p os arbitrary: q rule: row_loop.induct)
  case (1 frame x p os)
  show ?case
  proof (cases "x < width frame")
    case False
    with "1.prems" show ?thesis
      by (simp add: row_loop.simps [of frame] row_loop.simps [of g])
  next
    case True
    from "1.prems"(2) True have here: "data g q = data frame p"
      by (auto dest: bspec [where x = x])
    show ?thesis
    proof (cases "data frame p")
      case None
      with here True "1.prems"(1) show ?thesis
        by (simp add: row_loop.simps [of frame] row_loop.simps [of g])
    next
      case (Some b)
      have "\<forall>k \<in> {x + 1 ..< width frame}. data g (q + 1 + (k - (x + 1))) = data frame (p + 1 + (k - (x + 1)))"
        using "1.prems"(2) by (auto simp: algebra_simps)
      from "1.IH" [OF True Some "1.prems"(1) this] here Some True "1.prems"(1)
      show ?thesis
        by (simp add: row_loop.simps [of frame x] row_loop.simps [of g x])
    qed
  qed
qed

lemma frame_loop_cong:
  assumes "width g = width f" and "height g = height f"
    and "\<forall>k \<in> {y ..< height f}. \<forall>x \<in> {0 ..< width f}. sample_at g k x = sample_at f k x"
  shows "frame_loop g y (y * linesize g) os = frame_loop f y (y * linesize f) os"
  using assms
proof (induction f y "y * linesize f" os rule: frame_loop.induct)
  case (1 frame y os)
  show ?case
  proof (cases "y < height frame")
    case False
    with "1.prems" show ?thesis
      by (simp add: frame_loop.simps [of frame] frame_loop.simps [of g])
  next
    case True
    have "\<forall>k \<in> {0 ..< width frame}. data g (y * linesize g + (k - 0)) = data frame (y * linesize frame + (k - 0))"
      using "1.prems"(3) True by (simp add: sample_at_def)
    from row_loop_cong [OF "1.prems"(1) this]
    have row: "row_loop g 0 (y * linesize g) os = row_loop frame 0 (y * linesize frame) os" .
    show ?thesis
    proof (cases "row_loop frame 0 (y * linesize frame) os")
      case None
      with row True "1.prems"(2) show ?thesis
        by (simp add: frame_loop.simps [of frame] frame_loop.simps [of g])
    next
      case (Some os')
      have p: "y * linesize frame + linesize frame = (y + 1) * linesize frame"
        "y * linesize g + linesize g = (y + 1) * linesize g"
        by (simp_all add: algebra_simps)
      have rest: "\<forall>k \<in> {y + 1 ..< height frame}. \<forall>x \<in> {0 ..< width frame}. sample_at g k x = sample_at frame k x"
        using "1.prems"(3) by simp
      from "1.hyps" [OF True Some p(1) "1.prems"(1,2) rest] row Some True "1.prems"(2)
      show ?thesis
        by (simp add: frame_loop.simps [of frame y] frame_loop.simps [of g y] p)
    qed
  qed
qed


subsection \<open>The loops write characters of the ramp\<close>

lemma row_loop_chars:
  "row_loop f x p os = Some os' \<Longrightarrow> \<exists>cs. os' = os @ map Putchar cs \<and> set cs \<subseteq> set ramp"
proof (induction f x p os rule: row_loop.induct)
  case (1 frame x p os)
  show ?case
  proof (cases "x < width frame")
    case False
    with "1.prems" have "os' = os @ map Putchar []" by (simp add: row_loop.simps [of frame])
    then show ?thesis by (metis empty_set empty_subsetI)
  next
    case True
    with "1.prems" obtain b where b: "data frame p = Some b"
      and r: "row_loop frame (x + 1) (p + 1) (putchar (glyph b) os) = Some os'"
      by (auto simp add: row_loop.simps [of frame x] split: option.splits)
    from "1.IH" [OF True b r] obtain cs where
      cs: "os' = putchar (glyph b) os @ map Putchar cs" "set cs \<subseteq> set ramp" by blast
    have "glyph b \<in> set ramp"
      unfolding glyph_def using glyph_index_less by (rule nth_mem)
    with cs have "os' = os @ map Putchar (glyph b # cs) \<and> set (glyph b # cs) \<subseteq> set ramp"
      by (simp add: putchar_def)
    then show ?thesis by blast
  qed
qed

lemma frame_loop_chars:
  "frame_loop f y p0 os = Some os' \<Longrightarrow>
     \<exists>cs. os' = os @ map Putchar cs \<and> set cs \<subseteq> set ramp \<union> {newline}"
proof (induction f y p0 os rule: frame_loop.induct)
  case (1 frame y p0 os)
  show ?case
  proof (cases "y < height frame")
    case False
    with "1.prems" have "os' = os @ map Putchar []" by (simp add: frame_loop.simps [of frame])
    then show ?thesis by (metis empty_set empty_subsetI)
  next
    case True
    with "1.prems" obtain o1 where o1: "row_loop frame 0 p0 os = Some o1"
      and r: "frame_loop frame (y + 1) (p0 + linesize frame) (putchar newline o1) = Some os'"
      by (auto simp add: frame_loop.simps [of frame y] split: option.splits)
    from row_loop_chars [OF o1] obtain cs where
      cs: "o1 = os @ map Putchar cs" "set cs \<subseteq> set ramp" by blast
    from "1.IH" [OF True o1 r] obtain ds where
      ds: "os' = putchar newline o1 @ map Putchar ds" "set ds \<subseteq> set ramp \<union> {newline}" by blast
    from cs ds have "os' = os @ map Putchar (cs @ newline # ds) \<and>
        set (cs @ newline # ds) \<subseteq> set ramp \<union> {newline}"
      by (auto simp add: putchar_def)
    then show ?thesis by blast
  qed
qed


subsection \<open>The claims about the renderer\<close>

text \<open>
  C5.  The glyph of a sample is the character of the ramp \<open>" .-+#"\<close> at index
  \<open>sample / 52\<close> (integer division).  The samples 0 and 51 give a space, 52 gives a dot,
  255 gives \<open>#\<close>, and the last bucket, index 4, is the samples from 208 up to 255.
\<close>

theorem glyph_mapping:
  "ramp = '' .-+#'' \<and> glyph b = ramp ! (unat b div 52)
   \<and> glyph 0 = CHR '' '' \<and> glyph 51 = CHR '' '' \<and> glyph 52 = CHR ''.'' \<and> glyph 255 = CHR ''#''
   \<and> (unat b div 52 = 4) = (208 \<le> unat b \<and> unat b \<le> 255)
   \<and> (glyph b = CHR ''#'') = (208 \<le> unat b \<and> unat b \<le> 255)"
proof -
  have lt: "unat b < 256"
    using unsigned_less [of b] by simp
  then have bucket: "(unat b div 52 = 4) = (208 \<le> unat b \<and> unat b \<le> 255)"
    by auto
  have "unat b div 52 < 5"
    using lt by simp
  then consider "unat b div 52 = 0" | "unat b div 52 = 1" | "unat b div 52 = 2"
    | "unat b div 52 = 3" | "unat b div 52 = 4"
    by linarith
  then have "(glyph b = CHR ''#'') = (unat b div 52 = 4)"
    by cases (simp_all add: glyph_def glyph_index_def ramp_def)
  with bucket show ?thesis
    by (simp add: glyph_def glyph_index_def ramp_def)
qed



text \<open>
  C9.  The index \<open>sample / 52\<close> of an 8-bit sample is at most 4, so it is inside the
  five characters of the ramp and the glyph is one of them; and whatever a call of
  \<open>display_frame\<close> that returns has written between the cursor-home sequence and the
  flush is made of characters of the ramp and newlines.
\<close>

theorem glyph_within_ramp:
  assumes "display_frame frame os = Some os'"
  shows "glyph_index b \<le> 4 \<and> glyph_index b < length ramp \<and> glyph b \<in> set ramp
         \<and> (\<exists>cs. os' = os @ map Putchar cursor_home @ map Putchar cs @ [Fflush]
                  \<and> set cs \<subseteq> set ramp \<union> {newline})"
proof -
  have i: "glyph_index b < length ramp"
    by (rule glyph_index_less)
  then have m: "glyph b \<in> set ramp"
    unfolding glyph_def by (rule nth_mem)
  from assms obtain o1 where o1: "frame_loop frame 0 0 (printf cursor_home os) = Some o1"
    and os': "os' = fflush o1"
    by (auto simp add: display_frame_def split: option.splits)
  from frame_loop_chars [OF o1] obtain cs where
    "o1 = printf cursor_home os @ map Putchar cs" "set cs \<subseteq> set ramp \<union> {newline}"
    by blast
  with os' have "os' = os @ map Putchar cursor_home @ map Putchar cs @ [Fflush]
      \<and> set cs \<subseteq> set ramp \<union> {newline}"
    by (simp add: printf_def fflush_def)
  then have "\<exists>cs. os' = os @ map Putchar cursor_home @ map Putchar cs @ [Fflush]
      \<and> set cs \<subseteq> set ramp \<union> {newline}"
    by blast
  with i m show ?thesis
    by (simp add: ramp_def)
qed

theorem glyph_within_ramp_witness:
  "display_frame frame2x2 [] = Some picture2x2
   \<and> glyph_index 255 \<le> 4 \<and> glyph_index 255 < length ramp \<and> glyph 255 \<in> set ramp
   \<and> (\<exists>cs. picture2x2 = [] @ map Putchar cursor_home @ map Putchar cs @ [Fflush]
            \<and> set cs \<subseteq> set ramp \<union> {newline})"
proof -
  have d: "display_frame frame2x2 [] = Some picture2x2"
    using display_frame2x2 [of "[]"] by simp
  from glyph_within_ramp [OF d, of 255] d show ?thesis
    by simp
qed

text \<open>
  C10.  What \<open>display_frame\<close> writes depends on the \<open>width \<times> height\<close> samples only: two
  frames of the same width and height whose samples agree row by row give the same output,
  whatever their \<open>linesize\<close> and whatever else their planes hold.
\<close>

theorem display_frame_stride:
  assumes "width g = width f" and "height g = height f"
    and "\<forall>y \<in> set [0 .. height f - 1]. \<forall>x \<in> set [0 .. width f - 1].
           sample_at g y x = sample_at f y x"
  shows "display_frame g os = display_frame f os"
proof -
  have "\<forall>k \<in> {0 ..< height f}. \<forall>x \<in> {0 ..< width f}. sample_at g k x = sample_at f k x"
    using assms(3) by auto
  from frame_loop_cong [OF assms(1,2) this, of "printf cursor_home os"]
  show ?thesis
    by (simp add: display_frame_def)
qed

theorem display_frame_stride_witness:
  "linesize frame2x2_padded \<noteq> linesize frame2x2
   \<and> data frame2x2_padded 2 \<noteq> data frame2x2 2
   \<and> display_frame frame2x2_padded [] = display_frame frame2x2 []"
proof -
  have w: "width frame2x2_padded = width frame2x2"
    and h: "height frame2x2_padded = height frame2x2"
    by (simp_all add: frame2x2_def frame2x2_padded_def)
  have s: "\<forall>y \<in> set [0 .. height frame2x2 - 1]. \<forall>x \<in> set [0 .. width frame2x2 - 1].
      sample_at frame2x2_padded y x = sample_at frame2x2 y x"
    by (simp add: frame2x2_def frame2x2_padded_def sample_at_def upto_0_1 del: set_upto)
  from display_frame_stride [OF w h s, of "[]"] show ?thesis
    by (simp add: frame2x2_def frame2x2_padded_def)
qed


section \<open>Properties of the geometry computation\<close>

subsection \<open>Rounding to double precision\<close>

lemma rne_of_int: "rne (of_int n) = n"
  by (simp add: rne_def Let_def)

lemma rne_ge_floor: "\<lfloor>y\<rfloor> \<le> rne y"
  by (simp add: rne_def Let_def)

lemma ilog2_le:
  assumes "0 < x"
  shows "2 powi ilog2 x \<le> x"
proof (cases "1 \<le> x")
  case True
  then have pos: "0 < \<lfloor>x\<rfloor>" by simp
  from bitlen_bounds [OF pos] have b: "2 ^ nat (bitlen \<lfloor>x\<rfloor> - 1) \<le> \<lfloor>x\<rfloor>" ..
  have ge: "1 \<le> bitlen \<lfloor>x\<rfloor>"
    using pos bitlen_eq_zero_iff [of "\<lfloor>x\<rfloor>"] bitlen_nonneg [of "\<lfloor>x\<rfloor>"] by linarith
  have "(2::real) powi (bitlen \<lfloor>x\<rfloor> - 1) = 2 ^ nat (bitlen \<lfloor>x\<rfloor> - 1)"
    using ge by (simp add: power_int_nonneg_exp)
  also have "\<dots> = of_int (2 ^ nat (bitlen \<lfloor>x\<rfloor> - 1))" by simp
  also have "\<dots> \<le> of_int \<lfloor>x\<rfloor>" using b by (simp only: of_int_le_iff)
  also have "\<dots> \<le> x" by simp
  finally show ?thesis using True by (simp add: ilog2_def)
next
  case False
  with assms have x: "0 < x" "x < 1" by simp_all
  define n where "n = \<lceil>1 / x\<rceil>"
  have "1 < 1 / x" using x by simp
  then have n2: "2 \<le> n" unfolding n_def by linarith
  then have pos: "0 < n - 1" by simp
  from bitlen_bounds [OF pos] have "n - 1 < 2 ^ nat (bitlen (n - 1))" ..
  then have le: "n \<le> 2 ^ nat (bitlen (n - 1))" by simp
  have "1 / x \<le> of_int n" unfolding n_def by simp
  also have "\<dots> \<le> of_int (2 ^ nat (bitlen (n - 1)))" using le by (simp only: of_int_le_iff)
  also have "\<dots> = 2 ^ nat (bitlen (n - 1))" by simp
  finally have "1 / x \<le> 2 ^ nat (bitlen (n - 1))" .
  then have "1 / 2 ^ nat (bitlen (n - 1)) \<le> x"
    using x(1) by (simp add: field_simps)
  moreover have "(2::real) powi (- bitlen (n - 1)) = 1 / 2 ^ nat (bitlen (n - 1))"
    using bitlen_nonneg [of "n - 1"] by (simp add: power_int_minus_divide power_int_nonneg_exp)
  ultimately show ?thesis using False by (simp add: ilog2_def n_def)
qed

lemma round_double_pos:
  assumes "0 < x"
  shows "0 < round_double x"
proof -
  define e where "e = ilog2 \<bar>x\<bar> - 52"
  have p: "(0::real) < 2 powi e" by simp
  have "2 powi ilog2 x \<le> x" using assms by (rule ilog2_le)
  moreover have "(2::real) powi ilog2 x = 2 powi e * 2 ^ 52"
    using assms by (simp add: e_def power_int_diff)
  ultimately have "2 ^ 52 \<le> x / 2 powi e"
    using p by (simp add: field_simps)
  moreover have "(1::real) \<le> 2 ^ 52" by simp
  ultimately have "(1::real) \<le> x / 2 powi e" by (rule order_trans [rotated])
  then have "1 \<le> \<lfloor>x / 2 powi e\<rfloor>" by simp
  with rne_ge_floor [of "x / 2 powi e"] have "0 < rne (x / 2 powi e)" by linarith
  then have "0 < of_int (rne (x / 2 powi e)) * (2::real) powi e"
    using p by simp
  then show ?thesis using assms by (simp add: round_double_def e_def Let_def)
qed

lemma round_double_of_int:
  assumes "\<bar>w\<bar> < 2 ^ 53"
  shows "round_double (of_int w) = of_int w"
proof (cases "w = 0")
  case True
  then show ?thesis by (simp add: round_double_def)
next
  case False
  then have pos: "0 < \<bar>w\<bar>" by simp
  define k where "k = 53 - bitlen \<bar>w\<bar>"
  have "bitlen \<bar>w\<bar> \<le> 53"
    using assms by (simp add: bitlen_le_iff_power)
  then have k: "0 \<le> k" by (simp add: k_def)
  have one: "(1::real) \<le> \<bar>of_int w\<bar>" using False by (simp flip: of_int_abs)
  have fl: "\<lfloor>\<bar>of_int w :: real\<bar>\<rfloor> = \<bar>w\<bar>" by (simp flip: of_int_abs)
  have e: "ilog2 \<bar>of_int w\<bar> - 52 = - k"
    using one by (simp add: ilog2_def fl k_def)
  have "(2::real) powi (- k) = 1 / 2 ^ nat k"
    using k by (simp add: power_int_minus_divide power_int_nonneg_exp)
  then have q: "of_int w / (2::real) powi (- k) = of_int (w * 2 ^ nat k)"
    by simp
  have "round_double (of_int w) = of_int (rne (of_int w / 2 powi (- k))) * 2 powi (- k)"
    using False e by (simp add: round_double_def Let_def)
  also have "\<dots> = of_int (w * 2 ^ nat k) * 2 powi (- k)"
    by (simp only: q rne_of_int)
  also have "\<dots> = of_int w"
    using k by (simp add: power_int_minus_divide power_int_nonneg_exp)
  finally show ?thesis .
qed

lemma ilog2_gt:
  assumes "0 < x"
  shows "x < 2 powi (ilog2 x + 1)"
proof (cases "1 \<le> x")
  case True
  then have pos: "0 < \<lfloor>x\<rfloor>" by simp
  from bitlen_bounds [OF pos] have "\<lfloor>x\<rfloor> < 2 ^ nat (bitlen \<lfloor>x\<rfloor>)" ..
  then have "\<lfloor>x\<rfloor> + 1 \<le> 2 ^ nat (bitlen \<lfloor>x\<rfloor>)" by simp
  then have "of_int (\<lfloor>x\<rfloor> + 1) \<le> (of_int (2 ^ nat (bitlen \<lfloor>x\<rfloor>)) :: real)"
    by (simp only: of_int_le_iff)
  then have a: "of_int \<lfloor>x\<rfloor> + 1 \<le> (2 ^ nat (bitlen \<lfloor>x\<rfloor>) :: real)" by simp
  have "x < of_int \<lfloor>x\<rfloor> + 1" by linarith
  with a have "x < 2 ^ nat (bitlen \<lfloor>x\<rfloor>)" by linarith
  moreover have "(2::real) powi bitlen \<lfloor>x\<rfloor> = 2 ^ nat (bitlen \<lfloor>x\<rfloor>)"
    using bitlen_nonneg [of "\<lfloor>x\<rfloor>"] by (simp add: power_int_nonneg_exp)
  ultimately show ?thesis using True by (simp add: ilog2_def)
next
  case False
  with assms have x: "0 < x" "x < 1" by simp_all
  define n where "n = \<lceil>1 / x\<rceil>"
  have "1 < 1 / x" using x by simp
  then have n2: "2 \<le> n" unfolding n_def by linarith
  then have pos: "0 < n - 1" by simp
  have ge: "1 \<le> bitlen (n - 1)"
    using pos bitlen_eq_zero_iff [of "n - 1"] bitlen_nonneg [of "n - 1"] by linarith
  from bitlen_bounds [OF pos] have "2 ^ nat (bitlen (n - 1) - 1) \<le> n - 1" ..
  then have "(of_int (2 ^ nat (bitlen (n - 1) - 1)) :: real) \<le> of_int (n - 1)"
    by (simp only: of_int_le_iff)
  moreover have "of_int (n - 1) < 1 / x" unfolding n_def by linarith
  ultimately have "2 ^ nat (bitlen (n - 1) - 1) < 1 / x" by simp
  then have "x < 1 / 2 ^ nat (bitlen (n - 1) - 1)"
    using x(1) by (simp add: field_simps)
  moreover have "(2::real) powi (- bitlen (n - 1) + 1) = 1 / 2 ^ nat (bitlen (n - 1) - 1)"
  proof -
    have "- bitlen (n - 1) + 1 = - (bitlen (n - 1) - 1)" by simp
    then have "(2::real) powi (- bitlen (n - 1) + 1) = 1 / 2 powi (bitlen (n - 1) - 1)"
      by (simp only: power_int_minus_divide)
    then show ?thesis using ge by (simp add: power_int_nonneg_exp)
  qed
  ultimately show ?thesis using False by (simp add: ilog2_def n_def)
qed

lemma round_double_ge_ilog2:
  assumes "0 < x"
  shows "2 powi ilog2 x \<le> round_double x"
proof -
  define e where "e = ilog2 \<bar>x\<bar> - 52"
  have p: "(0::real) < 2 powi e" by simp
  have "2 powi ilog2 x \<le> x" using assms by (rule ilog2_le)
  moreover have s: "(2::real) powi ilog2 x = 2 powi e * 2 ^ 52"
    using assms by (simp add: e_def power_int_diff)
  ultimately have "2 ^ 52 \<le> x / 2 powi e"
    using p by (simp add: field_simps)
  then have "of_int (2 ^ 52) \<le> x / 2 powi e" by simp
  then have "2 ^ 52 \<le> \<lfloor>x / 2 powi e\<rfloor>" by (simp only: le_floor_iff)
  with rne_ge_floor [of "x / 2 powi e"] have "2 ^ 52 \<le> rne (x / 2 powi e)" by linarith
  then have "(of_int (2 ^ 52) :: real) \<le> of_int (rne (x / 2 powi e))"
    by (simp only: of_int_le_iff)
  then have "2 ^ 52 * 2 powi e \<le> of_int (rne (x / 2 powi e)) * (2::real) powi e"
    using p by simp
  then show ?thesis using assms s by (simp add: round_double_def e_def Let_def mult.commute)
qed

lemma round_double_ge_power:
  assumes "2 powi k \<le> x"
  shows "2 powi k \<le> round_double x"
proof -
  have "(0::real) < 2 powi k" by simp
  with assms have pos: "0 < x" by linarith
  from ilog2_gt [OF pos] assms have "(2::real) powi k < 2 powi (ilog2 x + 1)" by linarith
  then have "k < ilog2 x + 1"
    by (metis not_less numeral_One numeral_le_iff one_le_numeral power_int_increasing
        semiring_norm(69))
  then have "(2::real) powi k \<le> 2 powi ilog2 x"
    by (intro power_int_increasing) simp_all
  with round_double_ge_ilog2 [OF pos] show ?thesis by linarith
qed

lemma round_double_1: "round_double 1 = 1"
  using round_double_of_int [of 1] by simp

subsection \<open>The steps of the computation\<close>

lemmas scale_defs =
  dynamic_scale_def av_q2d_def fdiv_def fmul_def round_double_def ilog2_def compute_bitlen
  rne_def Let_def make_even_def c_round_def double_to_int_def int_mul_def INT_MIN_def
  INT_MAX_def MAX_ASCII_WIDTH_def CHARACTER_ASPECT_RATIO_def

lemma make_even_80: "make_even 80 = Some 80"
  by (simp add: make_even_def fdiv_def round_double_def ilog2_def compute_bitlen rne_def
      c_round_def double_to_int_def int_mul_def INT_MIN_def INT_MAX_def Let_def)

lemma double_to_int_of_int:
  "INT_MIN \<le> i \<Longrightarrow> i \<le> INT_MAX \<Longrightarrow> double_to_int (of_int i) = Some i"
  by (simp add: double_to_int_def Let_def)

lemma make_even_ge_1:
  assumes "1 \<le> t"
  defines "m \<equiv> \<lfloor>round_double (t / 2) + 1 / 2\<rfloor>"
  shows "1 \<le> m" and "c_round (round_double (t / 2)) = of_int m"
    and "2 * m \<le> INT_MAX \<Longrightarrow> make_even t = Some (of_int (2 * m))"
proof -
  have "(2::real) powi (- 1) \<le> t / 2"
    using assms(1) by (simp add: power_int_minus_divide)
  then have "(2::real) powi (- 1) \<le> round_double (t / 2)"
    by (rule round_double_ge_power)
  then have h: "1 / 2 \<le> round_double (t / 2)"
    by (simp add: power_int_minus_divide)
  then have "(1::real) \<le> round_double (t / 2) + 1 / 2" by simp
  then show m: "1 \<le> m" unfolding m_def by (simp add: le_floor_iff)
  show c: "c_round (round_double (t / 2)) = of_int m"
    using h by (simp add: c_round_def m_def)
  assume "2 * m \<le> INT_MAX"
  with m have "INT_MIN \<le> m" "m \<le> INT_MAX" "INT_MIN \<le> m * 2" "m * 2 \<le> INT_MAX"
    by (simp_all add: INT_MIN_def INT_MAX_def)
  then show "make_even t = Some (of_int (2 * m))"
    by (simp add: make_even_def fdiv_def c double_to_int_of_int int_mul_def mult.commute)
qed


text \<open>
  The whole computation: with a valid ratio it returns 80 columns and the row count of the
  formula; with an invalid ratio it is the computation for \<open>1 : 1\<close>; and it reads
  nothing of the state but the ratio.
\<close>

lemma scale_positive:
  assumes "0 < w" and "0 < h"
    and "0 < num (sample_aspect_ratio (lib s))" and "0 < den (sample_aspect_ratio (lib s))"
    and "spec_rows w h (sample_aspect_ratio (lib s)) \<le> INT_MAX"
  shows "\<exists>g. dynamic_scale w h s = Some g \<and> columns g = 80
           \<and> rows g = spec_rows w h (sample_aspect_ratio (lib s))
           \<and> even (rows g) \<and> 2 \<le> rows g"
proof -
  define sar where "sar = sample_aspect_ratio (lib s)"
  define sarReal where "sarReal = round_double (of_int (num sar) / of_int (den sar))"
  define vw where "vw = round_double (of_int w * sarReal)"
  define dar where "dar = round_double (vw / of_int h)"
  define adj where "adj = round_double (dar / (1 / 2))"
  define t where "t = max (c_round (round_double (80 / adj))) 1"
  define m where "m = \<lfloor>round_double (t / 2) + 1 / 2\<rfloor>"
  have "0 < sarReal"
    unfolding sarReal_def using assms(3,4) by (intro round_double_pos) (simp add: sar_def)
  then have "0 < vw"
    unfolding vw_def using assms(1) by (intro round_double_pos) simp
  then have "0 < dar"
    unfolding dar_def using assms(2) by (intro round_double_pos) simp
  then have adj: "0 < adj"
    unfolding adj_def by (intro round_double_pos) simp
  have t: "1 \<le> t" by (simp add: t_def)
  note me = make_even_ge_1 [OF t, folded m_def]
  have "spec_rows w h sar = max \<lfloor>c_round (round_double (t / 2)) * 2\<rfloor> 2"
    by (simp only: spec_rows_def Let_def t_def adj_def dar_def vw_def sarReal_def)
  also have "\<dots> = max \<lfloor>(of_int (m * 2) :: real)\<rfloor> 2"
    by (simp only: me(2) of_int_mult of_int_numeral)
  also have "\<dots> = max (m * 2) 2"
    by (simp only: floor_of_int)
  also have "\<dots> = 2 * m"
    using me(1) by simp
  finally have spec: "spec_rows w h sar = 2 * m" .
  with assms(5) have le: "2 * m \<le> INT_MAX" by (simp add: sar_def)
  have q: "av_q2d sar = Some sarReal"
    using assms(4) by (simp add: av_q2d_def fdiv_def sarReal_def sar_def)
  have d1: "fdiv vw (of_int h) = Some dar"
    using assms(2) by (simp add: fdiv_def dar_def)
  have d2: "fdiv dar CHARACTER_ASPECT_RATIO = Some adj"
    by (simp add: fdiv_def adj_def CHARACTER_ASPECT_RATIO_def)
  have d3: "fdiv 80 adj = Some (round_double (80 / adj))"
    using adj by (simp add: fdiv_def)
  have t': "(if c_round (round_double (80 / adj)) < 1 then 1 else c_round (round_double (80 / adj))) = t"
    by (simp add: t_def max_def)
  have i1: "double_to_int 80 = Some 80"
    using double_to_int_of_int [of 80] by (simp add: INT_MIN_def INT_MAX_def)
  have i2: "double_to_int (of_int (2 * m)) = Some (2 * m)"
    using le me(1) by (intro double_to_int_of_int) (simp_all add: INT_MIN_def)
  have nz: "(of_int (2 * m) :: real) \<noteq> 0"
    using me(1) by simp
  have "dynamic_scale w h s =
      Some \<lparr>video_display_aspect_ratio = dar, columns = 80, rows = 2 * m\<rparr>"
    unfolding dynamic_scale_def Let_def
    using assms(3,4) nz
    by (simp only: sar_def [symmetric] q option.map fmul_def vw_def [symmetric] d1 d2 d3
        option.case t' make_even_80 me(3) [OF le]
        MAX_ASCII_WIDTH_def i1 i2 if_True if_False simp_thms)
      (simp add: i1)
  moreover have "1 \<le> m" by (rule me(1))
  ultimately show ?thesis
    using spec by (simp add: sar_def)
qed



lemma scale_square:
  assumes "INT_MIN \<le> w" and "w \<le> INT_MAX"
    and "num (sample_aspect_ratio (lib s)) \<le> 0 \<or> den (sample_aspect_ratio (lib s)) \<le> 0"
    and "sample_aspect_ratio (lib t) = \<lparr>num = 1, den = 1\<rparr>"
  shows "dynamic_scale w h s = dynamic_scale w h t"
proof -
  have "\<bar>w\<bar> < 2 ^ 53"
    using assms(1,2) by (simp add: INT_MIN_def INT_MAX_def)
  then have "fmul (of_int w) 1 = of_int w"
    by (simp add: fmul_def round_double_of_int)
  moreover have "av_q2d \<lparr>num = 1, den = 1\<rparr> = Some 1"
    by (simp add: av_q2d_def fdiv_def round_double_1)
  ultimately show ?thesis
    using assms(3,4) by (auto simp add: dynamic_scale_def)
qed



lemma scale_same_sar:
  assumes "sample_aspect_ratio (lib s) = sample_aspect_ratio (lib t)"
  shows "dynamic_scale w h s = dynamic_scale w h t"
  unfolding dynamic_scale_def assms by (rule refl)

lemma scale_yields:
  assumes "0 < w" and "w \<le> INT_MAX" and "0 < h"
    and "spec_rows w h (effective_sar (sample_aspect_ratio (lib s))) \<le> INT_MAX"
  shows "\<exists>g. dynamic_scale w h s = Some g \<and> columns g = 80
           \<and> rows g = spec_rows w h (effective_sar (sample_aspect_ratio (lib s)))"
proof (cases "0 < num (sample_aspect_ratio (lib s)) \<and> 0 < den (sample_aspect_ratio (lib s))")
  case True
  then have e: "effective_sar (sample_aspect_ratio (lib s)) = sample_aspect_ratio (lib s)"
    by (simp add: effective_sar_def)
  from scale_positive [OF assms(1,3) _ _ assms(4) [unfolded e]] True show ?thesis
    unfolding e by blast
next
  case False
  then have e: "effective_sar (sample_aspect_ratio (lib s)) = \<lparr>num = 1, den = 1\<rparr>"
    by (auto simp add: effective_sar_def)
  define u where "u = s\<lparr>lib := (lib s)\<lparr>sample_aspect_ratio := \<lparr>num = 1, den = 1\<rparr>\<rparr>\<rparr>"
  have u: "sample_aspect_ratio (lib u) = \<lparr>num = 1, den = 1\<rparr>"
    by (simp add: u_def)
  have "INT_MIN \<le> w"
    using assms(1) by (simp add: INT_MIN_def)
  moreover have "num (sample_aspect_ratio (lib s)) \<le> 0 \<or> den (sample_aspect_ratio (lib s)) \<le> 0"
    using False by auto
  ultimately have eq: "dynamic_scale w h s = dynamic_scale w h u"
    using assms(2) u by (intro scale_square)
  have "spec_rows w h (sample_aspect_ratio (lib u)) \<le> INT_MAX"
    using assms(4) by (simp add: e u)
  from scale_positive [OF assms(1,3) _ _ this] have
    "\<exists>g. dynamic_scale w h u = Some g \<and> columns g = 80
       \<and> rows g = spec_rows w h \<lparr>num = 1, den = 1\<rparr>"
    by (auto simp add: u)
  then show ?thesis
    by (simp add: eq e)
qed

subsection \<open>The claims about the geometry\<close>

text \<open>
  C3, as the specification states it, fails: a source of \<open>1 \<times> 1\<close> pixels with the sample
  aspect ratio \<open>1 : 2147483647\<close> has both dimensions positive and a valid ratio, and the
  formula gives 85899345880 rows, which is no value of the type \<open>int\<close> that
  \<open>target_height\<close> is converted to.  The conversion \<open>(int)round(target_height / 2.0)\<close>
  is undefined there, and the computation has no result.
\<close>

theorem geometry_overflow:
  "spec_rows 1 1 \<lparr>num = 1, den = 2147483647\<rparr> = 85899345880
   \<and> INT_MAX < spec_rows 1 1 \<lparr>num = 1, den = 2147483647\<rparr>
   \<and> dynamic_scale 1 1 (with_sar 1 2147483647) = None"
  by code_simp

text \<open>
  C3, amended.  For positive \<open>srcWidth\<close> and \<open>srcHeight\<close> and a sample aspect ratio with
  both components positive, when the row count of the formula is within the range of
  \<open>int\<close>, the computation returns 80 columns and that row count, which is even and at
  least 2.  The formula is evaluated in double precision, as the source does;
  \<open>round\<close> rounds halfway cases away from zero.
\<close>

theorem geometry_resolved:
  assumes "0 < w" and "0 < h"
    and "0 < num (sample_aspect_ratio (lib s))" and "0 < den (sample_aspect_ratio (lib s))"
    and "spec_rows w h (sample_aspect_ratio (lib s)) \<le> INT_MAX"
  shows "\<exists>g. dynamic_scale w h s = Some g \<and> columns g = 80
           \<and> rows g = spec_rows w h (sample_aspect_ratio (lib s))
           \<and> even (rows g) \<and> 2 \<le> rows g"
  using assms by (rule scale_positive)

theorem geometry_resolved_witness:
  "(0::int) < 2 \<and> (0::int) < 13
   \<and> 0 < num (sample_aspect_ratio (lib (with_sar 40 33)))
   \<and> 0 < den (sample_aspect_ratio (lib (with_sar 40 33)))
   \<and> spec_rows 2 13 (sample_aspect_ratio (lib (with_sar 40 33))) = 214
   \<and> (214::int) \<le> INT_MAX
   \<and> (\<exists>g. dynamic_scale 2 13 (with_sar 40 33) = Some g \<and> columns g = 80 \<and> rows g = 214
          \<and> even (rows g) \<and> 2 \<le> rows g)"
proof -
  have r: "spec_rows 2 13 (sample_aspect_ratio (lib (with_sar 40 33))) = 214"
    by code_simp
  have "spec_rows 2 13 (sample_aspect_ratio (lib (with_sar 40 33))) \<le> INT_MAX"
    by (simp add: r INT_MAX_def)
  from geometry_resolved [of 2 13 "with_sar 40 33", OF _ _ _ _ this] r show ?thesis
    by (simp add: with_sar_def opened_def INT_MAX_def)
qed

text \<open>
  The double precision matters.  For a source of \<open>2 \<times> 13\<close> pixels with the sample aspect
  ratio \<open>40 : 33\<close> the exact quotient \<open>80 / ((2 * (40 / 33) / 13) / 0.5)\<close> is \<open>214.5\<close>,
  which rounds to 215 and then to the even 216; in double precision the quotient is just
  below \<open>214.5\<close> and the rows are 214.
\<close>

lemma rows_exact_and_double:
  "(80 / ((2 * (40 / 33) / 13) / (1 / 2)) :: real) = 429 / 2
   \<and> c_round (c_round (429 / 2) / 2) * 2 = 216
   \<and> map_option rows (dynamic_scale 2 13 (with_sar 40 33)) = Some 214"
  by code_simp

text \<open>
  C7.  When a component of the sample aspect ratio is zero or negative, the computation
  gives what it gives for the same width and height with the ratio \<open>1 : 1\<close>.  The width
  is a C \<open>int\<close>.
\<close>

theorem nonpositive_sar_is_square:
  assumes "INT_MIN \<le> w" and "w \<le> INT_MAX"
    and "num (sample_aspect_ratio (lib s)) \<le> 0 \<or> den (sample_aspect_ratio (lib s)) \<le> 0"
    and "sample_aspect_ratio (lib t) = \<lparr>num = 1, den = 1\<rparr>"
  shows "dynamic_scale w h s = dynamic_scale w h t"
  using assms by (rule scale_square)

theorem nonpositive_sar_is_square_witness:
  "INT_MIN \<le> 1920 \<and> 1920 \<le> INT_MAX
   \<and> (num (sample_aspect_ratio (lib (with_sar (- 4) 3))) \<le> 0
        \<or> den (sample_aspect_ratio (lib (with_sar (- 4) 3))) \<le> 0)
   \<and> sample_aspect_ratio (lib (with_sar 1 1)) = \<lparr>num = 1, den = 1\<rparr>
   \<and> dynamic_scale 1920 1080 (with_sar (- 4) 3) = dynamic_scale 1920 1080 (with_sar 1 1)"
proof -
  have a: "INT_MIN \<le> 1920" "1920 \<le> INT_MAX"
    by (simp_all add: INT_MIN_def INT_MAX_def)
  have b: "num (sample_aspect_ratio (lib (with_sar (- 4) 3))) \<le> 0
      \<or> den (sample_aspect_ratio (lib (with_sar (- 4) 3))) \<le> 0"
    by (simp add: with_sar_def)
  have c: "sample_aspect_ratio (lib (with_sar 1 1)) = \<lparr>num = 1, den = 1\<rparr>"
    by (simp add: with_sar_def)
  from nonpositive_sar_is_square [OF a b c, of 1080] a b c show ?thesis
    by simp
qed

text \<open>
  C8.  Two calls of the computation with the same width, height and sample aspect ratio
  yield the same geometry.  In two states of the program that agree on the ratio, whatever
  else differs between them (the other variables, what was written and logged, every answer
  of the libraries), both computations return a geometry, and it is the same one: 80
  columns and the row count of the formula, taken for the ratio \<open>1 : 1\<close> when a
  component of the ratio is not positive.  The width and the height are positive, the
  width is a C \<open>int\<close>, and the row count is within the range of \<open>int\<close>, where the
  conversion to \<open>int\<close> is defined.
\<close>

theorem geometry_deterministic:
  assumes "sample_aspect_ratio (lib s) = sample_aspect_ratio (lib t)"
    and "0 < w" and "w \<le> INT_MAX" and "0 < h"
    and "spec_rows w h (effective_sar (sample_aspect_ratio (lib s))) \<le> INT_MAX"
  shows "\<exists>g. dynamic_scale w h s = Some g \<and> dynamic_scale w h t = Some g
           \<and> columns g = 80
           \<and> rows g = spec_rows w h (effective_sar (sample_aspect_ratio (lib s)))"
  using scale_yields [OF assms(2-5)] scale_same_sar [OF assms(1), of w h] by auto

theorem geometry_deterministic_witness:
  "sample_aspect_ratio (lib (with_sar 16 15)) =
     sample_aspect_ratio (lib ((with_sar 16 15)\<lparr>ret := - 1, err := [Usage], lib := one_frame
        \<lparr>sample_aspect_ratio := \<lparr>num = 16, den = 15\<rparr>, pix_fmt := 5\<rparr>\<rparr>))
   \<and> with_sar 16 15 \<noteq> (with_sar 16 15)\<lparr>ret := - 1, err := [Usage], lib := one_frame
        \<lparr>sample_aspect_ratio := \<lparr>num = 16, den = 15\<rparr>, pix_fmt := 5\<rparr>\<rparr>
   \<and> (0::int) < 720 \<and> 720 \<le> INT_MAX \<and> (0::int) < 576
   \<and> spec_rows 720 576 (effective_sar (sample_aspect_ratio (lib (with_sar 16 15)))) = 30
   \<and> (30::int) \<le> INT_MAX
   \<and> (\<exists>g. dynamic_scale 720 576 (with_sar 16 15) = Some g
          \<and> dynamic_scale 720 576 ((with_sar 16 15)\<lparr>ret := - 1, err := [Usage], lib := one_frame
               \<lparr>sample_aspect_ratio := \<lparr>num = 16, den = 15\<rparr>, pix_fmt := 5\<rparr>\<rparr>) = Some g
          \<and> columns g = 80 \<and> rows g = 30)"
proof -
  have a: "sample_aspect_ratio (lib (with_sar 16 15)) =
     sample_aspect_ratio (lib ((with_sar 16 15)\<lparr>ret := - 1, err := [Usage], lib := one_frame
        \<lparr>sample_aspect_ratio := \<lparr>num = 16, den = 15\<rparr>, pix_fmt := 5\<rparr>\<rparr>))"
    by (simp add: with_sar_def)
  have r: "spec_rows 720 576 (effective_sar (sample_aspect_ratio (lib (with_sar 16 15)))) = 30"
    by code_simp
  have b: "(720::int) \<le> INT_MAX"
    by (simp add: INT_MAX_def)
  have c: "spec_rows 720 576 (effective_sar (sample_aspect_ratio (lib (with_sar 16 15)))) \<le> INT_MAX"
    by (simp add: r INT_MAX_def)
  from geometry_deterministic [OF a _ b _ c] a r b show ?thesis
    by (simp add: with_sar_def INT_MAX_def)
qed

section \<open>Properties of the read loop\<close>

lemma scale_opened:
  "sample_aspect_ratio (lib s) = \<lparr>num = 1, den = 1\<rparr> \<Longrightarrow>
   dynamic_scale 720 720 s =
     Some \<lparr>video_display_aspect_ratio = 1, columns = 80, rows = 40\<rparr>"
  by (simp add: scale_defs)

lemmas run_defs =
  main_def open_input_file_def init_filters_def scale_opened log_def Let_def
  read_loop.simps read_body_def receive_loop.simps receive_body_def pull_loop.simps
  pull_body_def report_def AVERROR_EOF_def AVERROR_EAGAIN_def display_gray_frame
  CHARACTER_ASPECT_RATIO_def opened_def startup_log_def

subsection \<open>No run exits with status 0\<close>

text \<open>
  Inside the read loop \<open>frame_displayed\<close> is 0 (\<open>running\<close>).  The loop is left with a
  negative \<open>ret\<close> (\<open>failed\<close>): by the \<open>break\<close> after \<open>av_read_frame\<close> or
  \<open>avcodec_send_packet\<close> returned an error or the end of the stream, or by a
  \<open>goto end\<close>.  \<open>ends N B\<close> says how a piece of program may end: in a state that
  satisfies \<open>N\<close> after \<open>Next\<close>, \<open>B\<close> after \<open>Break\<close>, and \<open>failed\<close> after
  \<open>Goto_end\<close>.  So the status that \<open>main\<close> chooses at the label \<open>end\<close> is 1 in every
  run that reaches it with a determinate \<open>frame_displayed\<close>.
\<close>

definition running :: "state \<Rightarrow> bool" where
  "running s \<longleftrightarrow> frame_displayed s = Some 0"

definition failed :: "state \<Rightarrow> bool" where
  "failed s \<longleftrightarrow> frame_displayed s = Some 0 \<and> ret s < 0"

definition nowhere :: "state \<Rightarrow> bool" where
  "nowhere s \<longleftrightarrow> False"

fun ends :: "(state \<Rightarrow> bool) \<Rightarrow> (state \<Rightarrow> bool) \<Rightarrow> flow \<Rightarrow> bool" where
  "ends N B (Next s) = N s"
| "ends N B (Break s) = B s"
| "ends N B (Goto_end s) = failed s"
| "ends N B Blocked = True"
| "ends N B Undefined = True"

lemma ends_mono:
  "ends N B x \<Longrightarrow> (\<And>s. N s \<Longrightarrow> N' s) \<Longrightarrow> (\<And>s. B s \<Longrightarrow> B' s) \<Longrightarrow> ends N' B' x"
  by (cases x) simp_all

lemma pull_body_ends: "running s \<Longrightarrow> ends nowhere running (pull_body s)"
  by (auto simp add: pull_body_def Let_def running_def failed_def log_def
      split: list.splits option.splits)

lemma pull_loop_ends: "running s \<Longrightarrow> ends running nowhere (pull_loop s)"
  using pull_body_ends [of s]
  by (cases "pull_body s") (simp_all add: pull_loop.simps [of s] nowhere_def)

lemma receive_body_ends:
  assumes "running s"
  shows "ends running running (receive_body s)"
proof (cases "avcodec_receive_frame (lib s)")
  case Nil
  then show ?thesis by (simp add: receive_body_def)
next
  case (Cons r rest)
  define s1 where "s1 = s\<lparr>ret := r, lib := (lib s)\<lparr>avcodec_receive_frame := rest\<rparr>\<rparr>"
  show ?thesis
  proof (cases "r = AVERROR_EAGAIN \<or> r = AVERROR_EOF \<or> r < 0")
    case True
    with Cons assms show ?thesis
      by (auto simp add: receive_body_def Let_def running_def failed_def log_def)
  next
    case False
    show ?thesis
    proof (cases "av_buffersrc_add_frame_flags (lib s)")
      case Nil
      with False Cons show ?thesis by (simp add: receive_body_def Let_def)
    next
      case Cons2: (Cons a rest')
      define s2 where "s2 = s1\<lparr>lib := (lib s1)\<lparr>av_buffersrc_add_frame_flags := rest'\<rparr>\<rparr>"
      have r2: "running s2"
        using assms by (simp add: running_def s1_def s2_def)
      have us: "receive_body s =
          (if a < 0 then Break (log (Error_while_feeding_the_filtergraph (ret s2)) s2)
           else (case pull_loop s2 of
                   Next s \<Rightarrow> (case frame_displayed s of None \<Rightarrow> Undefined
                              | Some d \<Rightarrow> if d \<noteq> 0 then Break s else Next s)
                 | other \<Rightarrow> other))"
        using False Cons Cons2
        by (simp add: receive_body_def Let_def s1_def s2_def)
      show ?thesis
      proof (cases "a < 0")
        case True
        with r2 show ?thesis by (simp add: us running_def log_def)
      next
        case a: False
        from pull_loop_ends [OF r2] show ?thesis
          by (cases "pull_loop s2") (simp_all add: us a running_def nowhere_def)
      qed
    qed
  qed
qed

lemma receive_loop_ends: "running s \<Longrightarrow> ends running nowhere (receive_loop s)"
proof (induction s rule: receive_loop.induct)
  case (1 s)
  show ?case
  proof (cases "ret s \<ge> 0")
    case False
    with "1.prems" show ?thesis by (simp add: receive_loop.simps [of s])
  next
    case True
    from receive_body_ends [OF "1.prems"] show ?thesis
    proof (cases "receive_body s")
      case (Next s')
      with "1.IH" [OF True Next] receive_body_ends [OF "1.prems"] True show ?thesis
        by (simp add: receive_loop.simps [of s])
    qed (use True in \<open>simp_all add: receive_loop.simps [of s]\<close>)
  qed
qed

lemma read_body_ends:
  assumes "running s"
  shows "ends running failed (read_body s)"
proof (cases "av_read_frame (lib s)")
  case Nil
  then show ?thesis by (simp add: read_body_def)
next
  case (Cons p rest)
  obtain r stream_index where p: "p = (r, stream_index)" by (cases p)
  define s1 where "s1 = s\<lparr>ret := r, lib := (lib s)\<lparr>av_read_frame := rest\<rparr>\<rparr>"
  have r1: "running s1" using assms by (simp add: running_def s1_def)
  show ?thesis
  proof (cases "r < 0")
    case True
    with Cons p assms show ?thesis
      by (simp add: read_body_def Let_def running_def failed_def log_def)
  next
    case r: False
    show ?thesis
    proof (cases "stream_index = video_stream_index s1")
      case False
      with r Cons p r1 show ?thesis
        by (simp add: read_body_def Let_def s1_def running_def)
    next
      case True
      show ?thesis
      proof (cases "avcodec_send_packet (lib s)")
        case Nil
        with True r Cons p show ?thesis
          by (simp add: read_body_def Let_def s1_def)
      next
        case Cons2: (Cons r' rest')
        define s2 where "s2 = s1\<lparr>ret := r', lib := (lib s1)\<lparr>avcodec_send_packet := rest'\<rparr>\<rparr>"
        define s3 where "s3 =
          (if r' < 0 then log (Error_while_sending_a_packet_to_the_decoder r') s2 else s2)"
        have r3: "running s3" and ret3: "ret s3 = r'"
          using r1 by (simp_all add: running_def s2_def s3_def log_def)
        have us: "read_body s =
          (case (if r' < 0 \<and> r' \<noteq> AVERROR_EAGAIN \<and> r' \<noteq> AVERROR_EOF then Break s3
                 else receive_loop s3) of
             Next s \<Rightarrow> (case frame_displayed s of None \<Rightarrow> Undefined
                        | Some d \<Rightarrow> if d \<noteq> 0 then Break s else Next s)
           | other \<Rightarrow> other)"
          using r True Cons p Cons2
          by (simp add: read_body_def Let_def s1_def s2_def s3_def)
        show ?thesis
        proof (cases "r' < 0 \<and> r' \<noteq> AVERROR_EAGAIN \<and> r' \<noteq> AVERROR_EOF")
          case True
          with r3 ret3 show ?thesis by (simp add: us failed_def running_def)
        next
          case False
          then have c: "(if r' < 0 \<and> r' \<noteq> AVERROR_EAGAIN \<and> r' \<noteq> AVERROR_EOF then x else y) = y"
            for x y :: flow
            by auto
          from receive_loop_ends [OF r3] show ?thesis
            by (cases "receive_loop s3") (simp_all add: us c running_def nowhere_def)
        qed
      qed
    qed
  qed
qed

lemma read_loop_ends: "running s \<Longrightarrow> ends failed nowhere (read_loop s)"
proof (induction s rule: read_loop.induct)
  case (1 s)
  from "1.prems" have fd: "frame_displayed s = Some 0" by (simp add: running_def)
  from read_body_ends [OF "1.prems"] show ?case
  proof (cases "read_body s")
    case (Next s')
    with "1.IH" [OF fd _ Next] read_body_ends [OF "1.prems"] fd show ?thesis
      by (simp add: read_loop.simps [of s])
  qed (use fd in \<open>simp_all add: read_loop.simps [of s]\<close>)
qed

lemma report_failed: "failed s \<Longrightarrow> status (report s) = 1 \<and> (\<exists>w g. report s = Exit 1 w g)"
  by (simp add: failed_def report_def)

lemma report_indeterminate: "frame_displayed s = None \<Longrightarrow> report s = Undefined_behaviour"
  by (simp add: report_def)

lemma open_input_file_frame_displayed:
  "frame_displayed (snd (open_input_file s)) = frame_displayed s"
  by (simp add: open_input_file_def Let_def log_def)

lemma init_filters_frame_displayed:
  "init_filters w h s = Some (r, s') \<Longrightarrow> frame_displayed s' = frame_displayed s"
  by (auto simp add: init_filters_def Let_def log_def split: if_splits option.splits)

lemma exit_status_is_1:
  assumes "main argc l = Exit st w g"
  shows "st = 1"
proof -
  define s0 where "s0 = \<lparr>ret = 0, frame_displayed = None, video_stream_index = - 1,
               out = [], err = [], lib = l\<rparr>"
  obtain r1 s1 where o: "open_input_file s0 = (r1, s1)"
    by (cases "open_input_file s0")
  have f1: "frame_displayed s1 = None"
    using open_input_file_frame_displayed [of s0] o by (simp add: s0_def)
  show ?thesis
  proof (cases "argc \<noteq> 2 \<or> av_frame_alloc_frame l = NULL \<or> av_frame_alloc_filt_frame l = NULL
      \<or> av_packet_alloc l = NULL")
    case True
    with assms show ?thesis by (auto simp add: main_def split: if_splits)
  next
    case False
    show ?thesis
    proof (cases "r1 < 0")
      case True
      with False assms o f1 show ?thesis
        by (simp add: main_def s0_def [symmetric] Let_def report_indeterminate)
    next
      case r1: False
      show ?thesis
      proof (cases "init_filters (dec_width (lib s1)) (dec_height (lib s1)) (s1\<lparr>ret := r1\<rparr>)")
        case None
        with False r1 assms o show ?thesis
          by (simp add: main_def s0_def [symmetric] Let_def)
      next
        case (Some p)
        obtain r2 s2 where p: "p = (r2, s2)" by (cases p)
        from init_filters_frame_displayed [OF Some [unfolded p]] f1
        have f2: "frame_displayed s2 = None" by simp
        show ?thesis
        proof (cases "r2 < 0")
          case True
          with False r1 assms o Some p f2 show ?thesis
            by (simp add: main_def s0_def [symmetric] Let_def report_indeterminate)
        next
          case r2: False
          define s3 where "s3 = s2\<lparr>ret := r2, frame_displayed := Some 0\<rparr>"
          have "running s3" by (simp add: running_def s3_def)
          from read_loop_ends [OF this] False r1 r2 assms o Some p show ?thesis
            by (cases "read_loop s3")
              (auto simp add: main_def s0_def [symmetric] Let_def s3_def [symmetric]
                nowhere_def dest: report_failed)
        qed
      qed
    qed
  qed
qed

text \<open>
  C1 does not hold of the source.  The only assignment that would set
  \<open>frame_displayed\<close> after a frame is rendered is commented out (line 329), so the three
  tests of \<open>frame_displayed\<close> never leave a loop.  On a stream of two video packets, the
  first of which becomes a black frame and the second a white one, \<open>main\<close> renders the
  first frame, goes on reading, renders the second frame too, reads to the end of the
  stream and exits with status 1, reporting that no frame could be displayed.
\<close>

theorem two_frames_rendered:
  "main 2 two_frames =
     Exit 1 (picture (gray_frame 0) @ picture (gray_frame 255))
       (startup_log @ [End_of_file_reached_but_no_video_frame_could_be_displayed])
   \<and> picture (gray_frame 0) \<noteq> picture (gray_frame 255)"
  by (simp add: two_frames_def run_defs pictures_differ)

text \<open>
  C2 does not hold of the source, for the same reason.  On a stream whose single video
  packet becomes one frame, the frame is displayed and the process exits with status 1,
  not 0.
\<close>

theorem displayed_frame_exits_1:
  "main 2 one_frame =
     Exit 1 (picture (gray_frame 0))
       (startup_log @ [End_of_file_reached_but_no_video_frame_could_be_displayed])"
  by (simp add: one_frame_def run_defs)

text \<open>
  C4, as the specification states it, fails.  When the pull for the first frame answers
  \<open>AVERROR_EOF\<close>, nothing is logged about the filter graph, the read loop goes on, and
  the frame of the second packet is rendered; the run ends at the end of the stream.
  When that pull answers another negative code, the run stops there with the error
  \<open>Error while pulling from filtergraph\<close> and nothing rendered.
\<close>

theorem drained_is_not_an_error:
  "main 2 drained_then_frame =
     Exit 1 (picture (gray_frame 255))
       (startup_log @ [End_of_file_reached_but_no_video_frame_could_be_displayed])
   \<and> main 2 failed_then_frame =
     Exit 1 []
       (startup_log @ [Error_while_pulling_from_filtergraph (- 22),
                       Program_finished_with_an_error (- 22)])"
  by (simp add: drained_then_frame_def failed_then_frame_def pulls_first_def run_defs)


subsection \<open>A pull that fails\<close>

text \<open>
  When \<open>av_buffersink_get_frame\<close> answers a negative code that is neither
  \<open>AVERROR(EAGAIN)\<close> nor \<open>AVERROR_EOF\<close>, the error is logged and control goes to the
  label \<open>end\<close> with that code in \<open>ret\<close>; there, while \<open>frame_displayed\<close> is 0, the
  process reports the error and exits with status 1.
\<close>

lemma fatal_pull_goes_to_end:
  assumes "av_buffersink_get_frame (lib s) = (r, f) # rest"
    and "r < 0" and "r \<noteq> AVERROR_EAGAIN" and "r \<noteq> AVERROR_EOF"
  shows "pull_loop s =
     Goto_end (log (Error_while_pulling_from_filtergraph r)
       (s\<lparr>ret := r, lib := (lib s)\<lparr>av_buffersink_get_frame := rest\<rparr>\<rparr>))"
  using assms by (simp add: pull_loop.simps [of s] pull_body_def Let_def)

lemma fatal_pull_report:
  assumes "frame_displayed s = Some 0" and "r < 0" and "r \<noteq> AVERROR_EOF"
  shows "report (log (Error_while_pulling_from_filtergraph r)
       (s\<lparr>ret := r, lib := (lib s)\<lparr>av_buffersink_get_frame := rest\<rparr>\<rparr>)) =
     Exit 1 (out s)
       (err s @ [Error_while_pulling_from_filtergraph r, Program_finished_with_an_error r])"
  using assms by (simp add: report_def log_def)

subsection \<open>Two runs that differ in Drained and Empty\<close>

text \<open>
  Two states are \<open>weak\<close>ly related when the second is the first with Drained read as
  Empty, up to a value of \<open>ret\<close> that is negative in both; they are \<open>strong\<close>ly related
  when \<open>ret\<close> agrees too.  In both, \<open>frame_displayed\<close> is 0, as it is throughout the
  read loop.  \<open>sim N B\<close> relates two ways a piece of program ends: in the same way, with
  states related by \<open>N\<close> after \<open>Next\<close>, by \<open>B\<close> after \<open>Break\<close>, and strongly after
  \<open>Goto_end\<close>.
\<close>

definition weak :: "state \<Rightarrow> state \<Rightarrow> bool" where
  "weak s t \<longleftrightarrow>
     frame_displayed s = Some 0 \<and> frame_displayed t = Some 0
     \<and> video_stream_index t = video_stream_index s
     \<and> out t = out s \<and> err t = err s \<and> lib t = without_drained (lib s)
     \<and> (ret t = ret s \<or> ret t < 0 \<and> ret s < 0)"

definition strong :: "state \<Rightarrow> state \<Rightarrow> bool" where
  "strong s t \<longleftrightarrow> weak s t \<and> ret t = ret s"

definition never :: "state \<Rightarrow> state \<Rightarrow> bool" where
  "never s t \<longleftrightarrow> False"

fun sim :: "(state \<Rightarrow> state \<Rightarrow> bool) \<Rightarrow> (state \<Rightarrow> state \<Rightarrow> bool) \<Rightarrow> flow \<Rightarrow> flow \<Rightarrow> bool" where
  "sim N B (Next s) (Next t) = N s t"
| "sim N B (Break s) (Break t) = B s t"
| "sim N B (Goto_end s) (Goto_end t) = strong s t"
| "sim N B Blocked Blocked = True"
| "sim N B Undefined Undefined = True"
| "sim N B _ _ = False"

definition without_drained_state :: "state \<Rightarrow> state" where
  "without_drained_state s = s\<lparr>lib := without_drained (lib s)\<rparr>"

lemma strong_weak: "strong s t \<Longrightarrow> weak s t"
  by (simp add: strong_def)

lemma weak_fields:
  assumes "weak s t"
  shows "frame_displayed t = Some 0" "frame_displayed s = Some 0"
    "video_stream_index t = video_stream_index s"
    "out t = out s" "err t = err s" "lib t = without_drained (lib s)"
    "ret t \<ge> 0 \<longleftrightarrow> ret s \<ge> 0"
  using assms by (auto simp: weak_def)

lemma pull_body_sim:
  assumes "weak s t"
  shows "sim never weak (pull_body s) (pull_body t)"
proof (cases "av_buffersink_get_frame (lib s)")
  case Nil
  with weak_fields(6) [OF assms] show ?thesis
    by (simp add: pull_body_def without_drained_def)
next
  case (Cons p rest)
  obtain r f where p: "p = (r, f)" by (cases p)
  note w = weak_fields [OF assms]
  show ?thesis
  proof (cases "r = AVERROR_EOF")
    case True
    with Cons p w(1-6) show ?thesis
      by (simp add: pull_body_def without_drained_def drained_as_empty_def Let_def
          weak_def AVERROR_EOF_def AVERROR_EAGAIN_def)
  next
    case False
    with Cons p w(1-6) show ?thesis
      by (auto simp add: pull_body_def without_drained_def drained_as_empty_def
          Let_def weak_def strong_def log_def split: option.splits)
  qed
qed

lemma sim_cases:
  assumes "sim N B x y"
  obtains (Next) s t where "x = Next s" "y = Next t" "N s t"
  | (Break) s t where "x = Break s" "y = Break t" "B s t"
  | (Goto_end) s t where "x = Goto_end s" "y = Goto_end t" "strong s t"
  | (Blocked) "x = Blocked" "y = Blocked"
  | (Undefined) "x = Undefined" "y = Undefined"
  using assms by (cases x; cases y) simp_all

lemma pull_loop_sim:
  assumes "weak s t"
  shows "sim weak never (pull_loop s) (pull_loop t)"
  using pull_body_sim [OF assms]
  by (cases rule: sim_cases) (simp_all add: pull_loop.simps [of s] pull_loop.simps [of t] never_def)

lemma receive_body_sim:
  assumes "weak s t"
  shows "sim weak weak (receive_body s) (receive_body t)"
proof -
  note w = weak_fields [OF assms]
  have l: "avcodec_receive_frame (lib t) = avcodec_receive_frame (lib s)"
    "av_buffersrc_add_frame_flags (lib t) = av_buffersrc_add_frame_flags (lib s)"
    by (simp_all add: w(6) without_drained_def)
  show ?thesis
  proof (cases "avcodec_receive_frame (lib s)")
    case Nil
    with l show ?thesis by (simp add: receive_body_def)
  next
    case (Cons r rest)
    define s1 where "s1 = s\<lparr>ret := r, lib := (lib s)\<lparr>avcodec_receive_frame := rest\<rparr>\<rparr>"
    define t1 where "t1 = t\<lparr>ret := r, lib := (lib t)\<lparr>avcodec_receive_frame := rest\<rparr>\<rparr>"
    have st1: "strong s1 t1"
      using w(1-6) by (simp add: strong_def weak_def s1_def t1_def without_drained_def)
    show ?thesis
    proof (cases "r = AVERROR_EAGAIN \<or> r = AVERROR_EOF \<or> r < 0")
      case True
      with Cons l st1 show ?thesis
        by (auto simp add: receive_body_def Let_def s1_def [symmetric] t1_def [symmetric]
            strong_def weak_def log_def)
    next
      case False
      show ?thesis
      proof (cases "av_buffersrc_add_frame_flags (lib s)")
        case Nil
        with False Cons l show ?thesis by (simp add: receive_body_def Let_def)
      next
        case Cons2: (Cons a rest')
        define s2 where "s2 = s1\<lparr>lib := (lib s1)\<lparr>av_buffersrc_add_frame_flags := rest'\<rparr>\<rparr>"
        define t2 where "t2 = t1\<lparr>lib := (lib t1)\<lparr>av_buffersrc_add_frame_flags := rest'\<rparr>\<rparr>"
        have st2: "strong s2 t2"
          using st1 by (simp add: strong_def weak_def s2_def t2_def without_drained_def)
        have us: "receive_body s =
            (if a < 0 then Break (log (Error_while_feeding_the_filtergraph (ret s2)) s2)
             else (case pull_loop s2 of
                     Next s \<Rightarrow> (case frame_displayed s of None \<Rightarrow> Undefined
                                | Some d \<Rightarrow> if d \<noteq> 0 then Break s else Next s)
                   | other \<Rightarrow> other))"
          using False Cons Cons2
          by (simp add: receive_body_def Let_def s1_def s2_def)
        have ut: "receive_body t =
            (if a < 0 then Break (log (Error_while_feeding_the_filtergraph (ret t2)) t2)
             else (case pull_loop t2 of
                     Next s \<Rightarrow> (case frame_displayed s of None \<Rightarrow> Undefined
                                | Some d \<Rightarrow> if d \<noteq> 0 then Break s else Next s)
                   | other \<Rightarrow> other))"
          using False Cons Cons2 l
          by (simp add: receive_body_def Let_def t1_def t2_def)
        show ?thesis
        proof (cases "a < 0")
          case True
          with st2 show ?thesis
            by (simp add: us ut strong_def weak_def log_def)
        next
          case a: False
          from pull_loop_sim [OF strong_weak [OF st2]] show ?thesis
            by (cases rule: sim_cases)
              (simp_all add: us ut a never_def weak_fields(1,2))
        qed
      qed
    qed
  qed
qed

lemma receive_loop_sim:
  "weak s t \<Longrightarrow> sim weak never (receive_loop s) (receive_loop t)"
proof (induction s arbitrary: t rule: receive_loop.induct)
  case (1 s)
  note w = weak_fields [OF "1.prems"]
  show ?case
  proof (cases "ret s \<ge> 0")
    case False
    with w(7) "1.prems" show ?thesis
      by (simp add: receive_loop.simps [of s] receive_loop.simps [of t])
  next
    case True
    with w(7) have t: "ret t \<ge> 0" by simp
    from receive_body_sim [OF "1.prems"] show ?thesis
    proof (cases rule: sim_cases)
      case (Next s' t')
      with "1.IH" [OF True Next(1) Next(3)] True t show ?thesis
        by (simp add: receive_loop.simps [of s] receive_loop.simps [of t])
    qed (use True t in \<open>simp_all add: receive_loop.simps [of s] receive_loop.simps [of t]\<close>)
  qed
qed

lemma read_body_sim:
  assumes "weak s t"
  shows "sim weak strong (read_body s) (read_body t)"
proof -
  note w = weak_fields [OF assms]
  have l: "av_read_frame (lib t) = av_read_frame (lib s)"
    "avcodec_send_packet (lib t) = avcodec_send_packet (lib s)"
    by (simp_all add: w(6) without_drained_def)
  show ?thesis
  proof (cases "av_read_frame (lib s)")
    case Nil
    with l show ?thesis by (simp add: read_body_def)
  next
    case (Cons p rest)
    obtain r stream_index where p: "p = (r, stream_index)" by (cases p)
    define s1 where "s1 = s\<lparr>ret := r, lib := (lib s)\<lparr>av_read_frame := rest\<rparr>\<rparr>"
    define t1 where "t1 = t\<lparr>ret := r, lib := (lib t)\<lparr>av_read_frame := rest\<rparr>\<rparr>"
    have st1: "strong s1 t1"
      using w(1-6) by (simp add: strong_def weak_def s1_def t1_def without_drained_def)
    note w1 = weak_fields [OF strong_weak [OF st1]]
    show ?thesis
    proof (cases "r < 0")
      case True
      have "read_body s =
          Break (if r \<noteq> AVERROR_EOF then log (Error_reading_frame_from_input r) s1 else s1)"
        using True Cons p by (simp add: read_body_def Let_def s1_def)
      moreover have "read_body t =
          Break (if r \<noteq> AVERROR_EOF then log (Error_reading_frame_from_input r) t1 else t1)"
        using True Cons p l by (simp add: read_body_def Let_def t1_def)
      ultimately show ?thesis
        using st1 by (simp add: strong_def weak_def log_def)
    next
      case r: False
      show ?thesis
      proof (cases "stream_index = video_stream_index s1")
        case False
        have "read_body s = Next s1"
          using False r Cons p w1(2) by (simp add: read_body_def Let_def s1_def)
        moreover have "read_body t = Next t1"
          using False r Cons p l w1(1,3) by (simp add: read_body_def Let_def t1_def)
        ultimately show ?thesis
          using st1 by (simp add: strong_weak)
      next
        case True
        show ?thesis
        proof (cases "avcodec_send_packet (lib s)")
          case Nil
          have "read_body s = Blocked"
            using Nil True r Cons p by (simp add: read_body_def Let_def s1_def)
          moreover have "read_body t = Blocked"
            using Nil True r Cons p l w1(3) by (simp add: read_body_def Let_def t1_def s1_def)
          ultimately show ?thesis
            by simp
        next
          case Cons2: (Cons r' rest')
          have sp: "avcodec_send_packet (lib s1) = r' # rest'"
            "avcodec_send_packet (lib t1) = r' # rest'"
            by (simp_all add: s1_def t1_def l Cons2)
          define s2 where "s2 = s1\<lparr>ret := r', lib := (lib s1)\<lparr>avcodec_send_packet := rest'\<rparr>\<rparr>"
          define t2 where "t2 = t1\<lparr>ret := r', lib := (lib t1)\<lparr>avcodec_send_packet := rest'\<rparr>\<rparr>"
          define s3 where "s3 =
            (if r' < 0 then log (Error_while_sending_a_packet_to_the_decoder r') s2 else s2)"
          define t3 where "t3 =
            (if r' < 0 then log (Error_while_sending_a_packet_to_the_decoder r') t2 else t2)"
          have st3: "strong s3 t3"
            using st1
            by (simp add: strong_def weak_def s2_def t2_def s3_def t3_def without_drained_def log_def)
          have us: "read_body s =
            (case (if r' < 0 \<and> r' \<noteq> AVERROR_EAGAIN \<and> r' \<noteq> AVERROR_EOF then Break s3
                   else receive_loop s3) of
               Next s \<Rightarrow> (case frame_displayed s of None \<Rightarrow> Undefined
                          | Some d \<Rightarrow> if d \<noteq> 0 then Break s else Next s)
             | other \<Rightarrow> other)"
            using r True Cons p Cons2
            by (simp add: read_body_def Let_def s1_def s2_def s3_def)
          have ut: "read_body t =
            (case (if r' < 0 \<and> r' \<noteq> AVERROR_EAGAIN \<and> r' \<noteq> AVERROR_EOF then Break t3
                   else receive_loop t3) of
               Next s \<Rightarrow> (case frame_displayed s of None \<Rightarrow> Undefined
                          | Some d \<Rightarrow> if d \<noteq> 0 then Break s else Next s)
             | other \<Rightarrow> other)"
            using r True Cons p Cons2 l w1(3)
            by (simp add: read_body_def Let_def t1_def t2_def t3_def s1_def)
          show ?thesis
          proof (cases "r' < 0 \<and> r' \<noteq> AVERROR_EAGAIN \<and> r' \<noteq> AVERROR_EOF")
            case True
            with st3 show ?thesis by (simp add: us ut)
          next
            case False
            then have c: "(if r' < 0 \<and> r' \<noteq> AVERROR_EAGAIN \<and> r' \<noteq> AVERROR_EOF then x else y) = y"
              for x y :: flow
              by auto
            from receive_loop_sim [OF strong_weak [OF st3]] show ?thesis
              by (cases rule: sim_cases)
                (simp_all add: us ut c never_def weak_fields(1,2))
          qed
        qed
      qed
    qed
  qed
qed

lemma read_loop_sim:
  "weak s t \<Longrightarrow> sim strong never (read_loop s) (read_loop t)"
proof (induction s arbitrary: t rule: read_loop.induct)
  case (1 s)
  note w = weak_fields [OF "1.prems"]
  from read_body_sim [OF "1.prems"] show ?case
  proof (cases rule: sim_cases)
    case (Next s' t')
    with "1.IH" [OF w(2) _ Next(1) Next(3)] w(1,2) show ?thesis
      by (simp add: read_loop.simps [of s] read_loop.simps [of t])
  qed (use w(1,2) in \<open>simp_all add: read_loop.simps [of s] read_loop.simps [of t]\<close>)
qed

lemma report_strong: "strong s t \<Longrightarrow> report t = report s"
  by (simp add: strong_def weak_def report_def split: option.splits)

lemma report_without_drained: "report (without_drained_state s) = report s"
  by (simp add: without_drained_state_def report_def split: option.splits)

lemma without_drained_state_update:
  "(without_drained_state s)\<lparr>ret := r\<rparr> = without_drained_state (s\<lparr>ret := r\<rparr>)"
  "log m (without_drained_state s) = without_drained_state (log m s)"
  "(without_drained_state s)\<lparr>video_stream_index := i\<rparr> = without_drained_state (s\<lparr>video_stream_index := i\<rparr>)"
  "lib (without_drained_state s) = without_drained (lib s)"
  by (simp_all add: without_drained_state_def log_def)

lemma without_drained_fields:
  "avformat_open_input (without_drained l) = avformat_open_input l"
  "avformat_find_stream_info (without_drained l) = avformat_find_stream_info l"
  "av_find_best_stream (without_drained l) = av_find_best_stream l"
  "avcodec_alloc_context3 (without_drained l) = avcodec_alloc_context3 l"
  "avcodec_open2 (without_drained l) = avcodec_open2 l"
  "dec_width (without_drained l) = dec_width l"
  "dec_height (without_drained l) = dec_height l"
  "sample_aspect_ratio (without_drained l) = sample_aspect_ratio l"
  "avfilter_inout_alloc_outputs (without_drained l) = avfilter_inout_alloc_outputs l"
  "avfilter_inout_alloc_inputs (without_drained l) = avfilter_inout_alloc_inputs l"
  "avfilter_graph_alloc (without_drained l) = avfilter_graph_alloc l"
  "avfilter_graph_create_filter_in (without_drained l) = avfilter_graph_create_filter_in l"
  "avfilter_graph_create_filter_out (without_drained l) = avfilter_graph_create_filter_out l"
  "av_opt_set_int_list (without_drained l) = av_opt_set_int_list l"
  "avfilter_graph_parse_ptr (without_drained l) = avfilter_graph_parse_ptr l"
  "avfilter_graph_config (without_drained l) = avfilter_graph_config l"
  "av_frame_alloc_frame (without_drained l) = av_frame_alloc_frame l"
  "av_frame_alloc_filt_frame (without_drained l) = av_frame_alloc_filt_frame l"
  "av_packet_alloc (without_drained l) = av_packet_alloc l"
  by (simp_all add: without_drained_def)

lemma open_input_file_without_drained:
  "open_input_file (without_drained_state s) = map_prod id without_drained_state (open_input_file s)"
  by (simp add: open_input_file_def Let_def without_drained_state_update without_drained_fields)

lemma dynamic_scale_without_drained: "dynamic_scale w h (without_drained_state s) = dynamic_scale w h s"
proof -
  have "sample_aspect_ratio (lib (without_drained_state s)) = sample_aspect_ratio (lib s)"
    by (simp add: without_drained_state_update without_drained_fields)
  then show ?thesis
    unfolding dynamic_scale_def by (simp only:)
qed

lemma init_filters_without_drained:
  "init_filters w h (without_drained_state s) =
     map_option (map_prod id without_drained_state) (init_filters w h s)"
proof (cases "dynamic_scale w h s")
  case None
  then show ?thesis
    by (simp add: init_filters_def Let_def without_drained_state_update without_drained_fields
        dynamic_scale_without_drained)
next
  case (Some g)
  then show ?thesis
    by (simp add: init_filters_def Let_def without_drained_state_update without_drained_fields
        dynamic_scale_without_drained)
qed

lemma read_loop_report:
  assumes "weak s t"
  shows "(case read_loop t of Next s \<Rightarrow> report s | Break s \<Rightarrow> report s
          | Goto_end s \<Rightarrow> report s | Blocked \<Rightarrow> Never_exits
          | Undefined \<Rightarrow> Undefined_behaviour) =
         (case read_loop s of Next s \<Rightarrow> report s | Break s \<Rightarrow> report s
          | Goto_end s \<Rightarrow> report s | Blocked \<Rightarrow> Never_exits
          | Undefined \<Rightarrow> Undefined_behaviour)"
  using read_loop_sim [OF assms]
  by (cases rule: sim_cases) (simp_all add: report_strong never_def)

lemma weak_start:
  "weak (s\<lparr>ret := r, frame_displayed := Some 0\<rparr>)
     ((without_drained_state s)\<lparr>ret := r, frame_displayed := Some 0\<rparr>)"
  by (simp add: weak_def without_drained_state_def)

text \<open>
  C4, amended.  A pull that answers Drained is handled exactly as one that answers Empty:
  the driver stops pulling for that decoded frame and goes on with the read loop.  A run
  and the same run with every Drained replaced by Empty end in the same way, with the same
  exit status, the same output and the same log.
\<close>

theorem drained_is_empty: "main argc (without_drained l) = main argc l"
proof -
  define s0 where "s0 = \<lparr>ret = 0, frame_displayed = None, video_stream_index = - 1,
               out = [], err = [], lib = l\<rparr>"
  have s0: "\<lparr>ret = 0, frame_displayed = None, video_stream_index = - 1,
               out = [], err = [], lib = without_drained l\<rparr> = without_drained_state s0"
    by (simp add: s0_def without_drained_state_def)
  note a = without_drained_fields
  obtain r1 s1 where o: "open_input_file s0 = (r1, s1)"
    by (cases "open_input_file s0")
  show ?thesis
  proof (cases "init_filters (dec_width (lib s1)) (dec_height (lib s1)) (s1\<lparr>ret := r1\<rparr>)")
    case None
    then show ?thesis
      unfolding main_def s0 s0_def [symmetric]
      by (simp add: a open_input_file_without_drained o Let_def without_drained_state_update
          report_without_drained init_filters_without_drained)
  next
    case (Some p)
    obtain r2 s2 where p: "p = (r2, s2)" by (cases p)
    from Some p weak_start [where s = s2 and r = r2, THEN read_loop_report] show ?thesis
      unfolding main_def s0 s0_def [symmetric]
      by (simp add: a open_input_file_without_drained o Let_def without_drained_state_update
          report_without_drained init_filters_without_drained)
  qed
qed

end
